theory Spec2Isabelle
  imports Complex_Main "HOL-Library.List_Lexorder" "HOL-Library.Char_ord" "HOL-Library.Multiset"
begin

section \<open>Tables\<close>

text \<open>
  The notebook \<^verbatim>\<open>main.ipynb\<close> works on pandas tables. A table is a map from column
  names to columns; a column read from the CSV file is either numeric (int64 or
  float64, both embedded in the reals) or text. A numeric cell is \<open>Some x\<close> for the
  number \<open>x\<close> and \<open>None\<close> for NaN, the null value of pandas. Arithmetic is exact:
  rounding of floating-point operations is not part of this embedding, and writing the
  table to the CSV file and reading it back returns the same table.
\<close>

datatype error = KeyError string | ValueError | TypeError

datatype column = NumCol "real option list" | StrCol "string list"

type_synonym frame = "string \<rightharpoonup> column"

definition ebind :: "error + 'a \<Rightarrow> ('a \<Rightarrow> error + 'b) \<Rightarrow> error + 'b" where
  "ebind m f = (case m of Inl e \<Rightarrow> Inl e | Inr x \<Rightarrow> f x)"

text \<open>\<^verbatim>\<open>data[c]\<close>: a missing column raises KeyError.\<close>

definition getcol :: "frame \<Rightarrow> string \<Rightarrow> error + column" where
  "getcol df c = (case df c of None \<Rightarrow> Inl (KeyError c) | Some col \<Rightarrow> Inr col)"

text \<open>A column used in arithmetic: text cells raise TypeError.\<close>

definition getnum :: "frame \<Rightarrow> string \<Rightarrow> error + real option list" where
  "getnum df c = ebind (getcol df c)
     (\<lambda>col. case col of NumCol xs \<Rightarrow> Inr xs | StrCol _ \<Rightarrow> Inl TypeError)"

definition col_length :: "column \<Rightarrow> nat" where
  "col_length col = (case col of NumCol xs \<Rightarrow> length xs | StrCol xs \<Rightarrow> length xs)"

subsection \<open>Elementwise operations\<close>

text \<open>\<^verbatim>\<open>series == v\<close>: NaN compares unequal to every number.\<close>

definition series_eq :: "real option list \<Rightarrow> real \<Rightarrow> bool list" where
  "series_eq xs v = map (\<lambda>x. x = Some v) xs"

text \<open>\<^verbatim>\<open>np.where(cond, a, series)\<close> with a scalar \<open>a\<close>.\<close>

definition np_where :: "bool list \<Rightarrow> real \<Rightarrow> real option list \<Rightarrow> real option list" where
  "np_where cs a ys = map (\<lambda>(c, y). if c then Some a else y) (zip cs ys)"

text \<open>
  Floating-point division and multiplication. NaN propagates. A division by zero gives
  NaN for \<open>0 / 0\<close> and an infinity otherwise; this embedding has no infinities and gives
  \<open>None\<close> for both, so \<open>Some\<close> means a finite number.
\<close>

fun fdiv :: "real option \<Rightarrow> real option \<Rightarrow> real option" where
  "fdiv (Some a) (Some b) = (if b = 0 then None else Some (a / b))"
| "fdiv _ _ = None"

fun fmul :: "real option \<Rightarrow> real option \<Rightarrow> real option" where
  "fmul (Some a) (Some b) = Some (a * b)"
| "fmul _ _ = None"

definition series_div :: "real option list \<Rightarrow> real option list \<Rightarrow> real option list" where
  "series_div xs ys = map (\<lambda>(x, y). fdiv x y) (zip xs ys)"

definition series_mul :: "real option list \<Rightarrow> real option list \<Rightarrow> real option list" where
  "series_mul xs ys = map (\<lambda>(x, y). fmul x y) (zip xs ys)"

subsection \<open>Row selection by label\<close>

text \<open>
  The index of the table is \<open>0, ..., n - 1\<close>. \<^verbatim>\<open>data.loc[idx, c]\<close> reads the cells of the
  rows \<open>idx\<close>; \<^verbatim>\<open>data.loc[idx, c] = vs\<close> writes them in order. A label that is not in the
  index raises KeyError.
\<close>

definition loc_get :: "nat list \<Rightarrow> 'a list \<Rightarrow> 'a list" where
  "loc_get idx xs = map (\<lambda>i. xs ! i) idx"

fun loc_assign :: "nat list \<Rightarrow> 'a list \<Rightarrow> 'a list \<Rightarrow> 'a list" where
  "loc_assign (i # idx) (v # vs) xs = loc_assign idx vs (xs[i := v])"
| "loc_assign _ _ xs = xs"

definition loc_set :: "string \<Rightarrow> nat list \<Rightarrow> 'a list \<Rightarrow> 'a list \<Rightarrow> error + 'a list" where
  "loc_set c idx vs xs =
     (if \<forall>i \<in> set idx. i < length xs then Inr (loc_assign idx vs xs) else Inl (KeyError c))"

section \<open>Synthetic data generator\<close>

definition n_records :: nat where
  "n_records = 5000"

text \<open>
  \<^verbatim>\<open>np.round(x, 2)\<close> is \<open>rint (x * 100) / 100\<close>, and \<open>rint\<close> rounds a tie to the even
  neighbour.
\<close>

definition rint :: "real \<Rightarrow> int" where
  "rint y = (let f = \<lfloor>y\<rfloor> in
     if y - of_int f < 1 / 2 then f
     else if 1 / 2 < y - of_int f then f + 1
     else if even f then f else f + 1)"

definition np_round2 :: "real \<Rightarrow> real" where
  "np_round2 x = of_int (rint (x * 100)) / 100"

text \<open>
  The generator draws from numpy's seeded random source. The values drawn are the input
  of the model, one field for each call in the order of the notebook; \<open>valid_draws\<close> is
  what numpy guarantees about them: \<^verbatim>\<open>randint(lo, hi)\<close> is in \<open>[lo, hi)\<close>,
  \<^verbatim>\<open>uniform(lo, hi)\<close> is in \<open>[lo, hi)\<close>, \<^verbatim>\<open>choice(xs)\<close> is an element of \<open>xs\<close>, and
  \<^verbatim>\<open>choice(index, size=k, replace=False)\<close> is \<open>k\<close> different labels of the index.
\<close>

record draws =
  Age_draw :: "int list"
  Gender_draw :: "string list"
  ContractType_draw :: "string list"
  MonthlyCharges_draw :: "real list"
  TotalCharges_draw :: "real list"
  TechSupport_draw :: "string list"
  InternetService_draw :: "string list"
  Tenure_draw :: "int list"
  PaperlessBilling_draw :: "string list"
  PaymentMethod_draw :: "string list"
  Churn_draw :: "string list"
  missing_idx :: "nat list"
  outlier_idx :: "nat list"

definition choice_of :: "string list \<Rightarrow> string list \<Rightarrow> bool" where
  "choice_of opts xs \<longleftrightarrow> length xs = n_records \<and> list_all (\<lambda>x. x \<in> set opts) xs"

definition choice_no_replace :: "nat \<Rightarrow> nat list \<Rightarrow> bool" where
  "choice_no_replace k idx \<longleftrightarrow>
     length idx = k \<and> distinct idx \<and> list_all (\<lambda>i. i < n_records) idx"

definition valid_draws :: "draws \<Rightarrow> bool" where
  "valid_draws d \<longleftrightarrow>
     length (Age_draw d) = n_records \<and> list_all (\<lambda>a. 18 \<le> a \<and> a < 70) (Age_draw d) \<and>
     choice_of [''Male'', ''Female''] (Gender_draw d) \<and>
     choice_of [''Month-to-month'', ''One year'', ''Two year''] (ContractType_draw d) \<and>
     length (MonthlyCharges_draw d) = n_records \<and>
     list_all (\<lambda>x. 20 \<le> x \<and> x < 120) (MonthlyCharges_draw d) \<and>
     length (TotalCharges_draw d) = n_records \<and>
     list_all (\<lambda>x. 100 \<le> x \<and> x < 8000) (TotalCharges_draw d) \<and>
     choice_of [''Yes'', ''No''] (TechSupport_draw d) \<and>
     choice_of [''DSL'', ''Fiber optic'', ''No''] (InternetService_draw d) \<and>
     length (Tenure_draw d) = n_records \<and> list_all (\<lambda>t. 1 \<le> t \<and> t < 72) (Tenure_draw d) \<and>
     choice_of [''Yes'', ''No''] (PaperlessBilling_draw d) \<and>
     choice_of [''Cash'', ''UPI'', ''Internet Banking'', ''Debit card'', ''Credit card'']
       (PaymentMethod_draw d) \<and>
     choice_of [''Yes'', ''No''] (Churn_draw d) \<and>
     choice_no_replace 50 (missing_idx d) \<and>
     choice_no_replace 10 (outlier_idx d)"

definition of_ints :: "int list \<Rightarrow> column" where
  "of_ints xs = NumCol (map (\<lambda>x. Some (of_int x)) xs)"

definition of_floats :: "real list \<Rightarrow> column" where
  "of_floats xs = NumCol (map Some xs)"

text \<open>The table built by \<^verbatim>\<open>pd.DataFrame({...})\<close>.\<close>

definition initial_table :: "draws \<Rightarrow> frame" where
  "initial_table d = [
     ''CustomerID'' \<mapsto> of_ints (map int [1 ..< n_records + 1]),
     ''Age'' \<mapsto> of_ints (Age_draw d),
     ''Gender'' \<mapsto> StrCol (Gender_draw d),
     ''ContractType'' \<mapsto> StrCol (ContractType_draw d),
     ''MonthlyCharges'' \<mapsto> of_floats (map np_round2 (MonthlyCharges_draw d)),
     ''TotalCharges'' \<mapsto> of_floats (map np_round2 (TotalCharges_draw d)),
     ''TechSupport'' \<mapsto> StrCol (TechSupport_draw d),
     ''InternetService'' \<mapsto> StrCol (InternetService_draw d),
     ''Tenure'' \<mapsto> of_ints (Tenure_draw d),
     ''PaperlessBilling'' \<mapsto> StrCol (PaperlessBilling_draw d),
     ''PaymentMethod'' \<mapsto> StrCol (PaymentMethod_draw d),
     ''Churn'' \<mapsto> StrCol (Churn_draw d)]"

text \<open>The cell "Derived features".\<close>

definition derived_features :: "frame \<Rightarrow> error + frame" where
  "derived_features data =
     ebind (getnum data ''TotalCharges'') (\<lambda>tc.
     ebind (getnum data ''Tenure'') (\<lambda>tn.
     let data1 = data(''average_monthly_charges'' \<mapsto>
                   NumCol (series_div tc (np_where (series_eq tn 0) 1 tn))) in
     ebind (getnum data1 ''MonthlyCharges'') (\<lambda>mc.
     ebind (getnum data1 ''Tenure'') (\<lambda>tn1.
     Inr (data1(''customer_lifetime_value'' \<mapsto> NumCol (series_mul mc tn1)))))))"

text \<open>The cell "Introduce missing values" and "Introduce outliers".\<close>

definition inject_missing :: "nat list \<Rightarrow> frame \<Rightarrow> error + frame" where
  "inject_missing idx data =
     ebind (getnum data ''TotalCharges'') (\<lambda>tc.
     ebind (loc_set ''TotalCharges'' idx (replicate (length idx) None) tc) (\<lambda>tc1.
     Inr (data(''TotalCharges'' \<mapsto> NumCol tc1))))"

definition inject_outliers :: "nat list \<Rightarrow> frame \<Rightarrow> error + frame" where
  "inject_outliers idx data =
     ebind (getnum data ''MonthlyCharges'') (\<lambda>mc.
     ebind (loc_set ''MonthlyCharges'' idx
              (map (\<lambda>x. fmul x (Some (3 / 2))) (loc_get idx mc)) mc) (\<lambda>mc1.
     Inr (data(''MonthlyCharges'' \<mapsto> NumCol mc1))))"

text \<open>
  The generation stage: the table that is written to \<^verbatim>\<open>data/customer_data.csv\<close> and read
  back by the later stages.
\<close>

definition generate :: "draws \<Rightarrow> error + frame" where
  "generate d =
     ebind (derived_features (initial_table d)) (\<lambda>data1.
     ebind (inject_missing (missing_idx d) data1) (\<lambda>data2.
     inject_outliers (outlier_idx d) data2))"

section \<open>Preprocessor\<close>

subsection \<open>Imputation\<close>

definition non_null :: "real option list \<Rightarrow> real list" where
  "non_null xs = List.map_filter id xs"

definition mean :: "real list \<Rightarrow> real" where
  "mean xs = sum_list xs / real (length xs)"

text \<open>
  \<^verbatim>\<open>SimpleImputer(strategy='mean').fit_transform\<close> on a table of one column. The statistic
  is the mean of the cells that are not NaN, and it replaces the NaN cells. Text cells
  raise ValueError. A column with no number at all (no rows, or all NaN) has no
  statistic: scikit-learn rejects the empty table, and drops the all-NaN column, so that
  the assignment to \<^verbatim>\<open>data['TotalCharges']\<close> fails.
\<close>

definition SimpleImputer_fit_transform :: "column \<Rightarrow> error + real option list" where
  "SimpleImputer_fit_transform col =
     (case col of
        StrCol _ \<Rightarrow> Inl ValueError
      | NumCol xs \<Rightarrow>
          (let statistics = non_null xs in
           if statistics = [] then Inl ValueError
           else Inr (map (\<lambda>x. case x of None \<Rightarrow> Some (mean statistics) | Some v \<Rightarrow> Some v) xs)))"

text \<open>The cell "Handle missing values".\<close>

definition impute_cell :: "frame \<Rightarrow> error + frame" where
  "impute_cell data =
     ebind (getcol data ''TotalCharges'') (\<lambda>col.
     ebind (SimpleImputer_fit_transform col) (\<lambda>tc.
     Inr (data(''TotalCharges'' \<mapsto> NumCol tc))))"

subsection \<open>Label encoding\<close>

fun index_of :: "'a list \<Rightarrow> 'a \<Rightarrow> nat" where
  "index_of [] x = 0"
| "index_of (c # cs) x = (if x = c then 0 else Suc (index_of cs x))"

text \<open>
  \<^verbatim>\<open>np.unique(col, return_inverse=True)\<close>: the classes are the different values in
  ascending order (strings by code point, NaN once and last), and every cell is replaced
  by the position of its class. The result is a pair: the number of classes and the
  positions.
\<close>

definition unique_inverse :: "column \<Rightarrow> nat \<times> nat list" where
  "unique_inverse col =
     (case col of
        StrCol xs \<Rightarrow>
          (let classes = sort (remdups xs) in (length classes, map (index_of classes) xs))
      | NumCol xs \<Rightarrow>
          (let classes = map Some (sort (remdups (non_null xs))) @
                         (if None \<in> set xs then [None] else [])
           in (length classes, map (index_of classes) xs)))"

definition LabelEncoder_fit_transform :: "column \<Rightarrow> column" where
  "LabelEncoder_fit_transform col = NumCol (map (\<lambda>k. Some (real k)) (snd (unique_inverse col)))"

definition categorical_cols :: "string list" where
  "categorical_cols = [''Gender'', ''ContractType'', ''TechSupport'', ''InternetService'',
     ''PaperlessBilling'', ''PaymentMethod'', ''Churn'']"

definition encode_col :: "string \<Rightarrow> frame \<Rightarrow> error + frame" where
  "encode_col c data =
     ebind (getcol data c) (\<lambda>col. Inr (data(c \<mapsto> LabelEncoder_fit_transform col)))"

text \<open>The cell "Encode categorical features": the loop over the seven columns.\<close>

fun encode_loop :: "string list \<Rightarrow> frame \<Rightarrow> error + frame" where
  "encode_loop [] data = Inr data"
| "encode_loop (c # cs) data = ebind (encode_col c data) (encode_loop cs)"

definition encode_cell :: "frame \<Rightarrow> error + frame" where
  "encode_cell data = encode_loop categorical_cols data"

subsection \<open>Standardization\<close>

fun fsub :: "real option \<Rightarrow> real option \<Rightarrow> real option" where
  "fsub (Some a) (Some b) = Some (a - b)"
| "fsub _ _ = None"

definition variance :: "real list \<Rightarrow> real" where
  "variance xs = mean (map (\<lambda>x. (x - mean xs)\<^sup>2) xs)"


text \<open>
  \<^verbatim>\<open>StandardScaler().fit_transform\<close> on one column. The mean and the variance (divisor
  \<open>n\<close>) are taken over the cells that are not NaN, and NaN cells stay NaN. The scale is
  the square root of the variance, and scikit-learn replaces the scale of a constant
  column by 1 before it divides (\<^verbatim>\<open>_handle_zeros_in_scale\<close>).
\<close>

definition handle_zeros_in_scale :: "real \<Rightarrow> real \<Rightarrow> real" where
  "handle_zeros_in_scale fit_var scale = (if fit_var = 0 then 1 else scale)"

definition StandardScaler_column :: "real option list \<Rightarrow> real option list" where
  "StandardScaler_column xs =
     (let fit_mean = mean (non_null xs);
          fit_var = variance (non_null xs);
          fit_scale = handle_zeros_in_scale fit_var (sqrt fit_var)
      in map (\<lambda>x. fdiv (fsub x (Some fit_mean)) (Some fit_scale)) xs)"

definition numeric_cols :: "string list" where
  "numeric_cols = [''Age'', ''MonthlyCharges'', ''TotalCharges'', ''Tenure'',
     ''average_monthly_charges'', ''customer_lifetime_value'']"

text \<open>\<^verbatim>\<open>data[[c1, ..., ck]]\<close>: a missing column raises KeyError.\<close>

fun getcols :: "frame \<Rightarrow> string list \<Rightarrow> error + column list" where
  "getcols df [] = Inr []"
| "getcols df (c # cs) =
     ebind (getcol df c) (\<lambda>col. ebind (getcols df cs) (\<lambda>cols. Inr (col # cols)))"

text \<open>The scaler reads the table as floats: text cells raise ValueError.\<close>

fun as_float :: "column list \<Rightarrow> error + real option list list" where
  "as_float [] = Inr []"
| "as_float (NumCol xs # cols) = ebind (as_float cols) (\<lambda>xss. Inr (xs # xss))"
| "as_float (StrCol _ # cols) = Inl ValueError"

text \<open>A table without rows raises ValueError.\<close>

definition StandardScaler_fit_transform ::
    "column list \<Rightarrow> error + real option list list" where
  "StandardScaler_fit_transform cols =
     ebind (as_float cols) (\<lambda>xss.
     if \<exists>xs \<in> set xss. xs = [] then Inl ValueError
     else Inr (map StandardScaler_column xss))"

fun setcols :: "frame \<Rightarrow> string list \<Rightarrow> real option list list \<Rightarrow> frame" where
  "setcols df (c # cs) (xs # xss) = setcols (df(c \<mapsto> NumCol xs)) cs xss"
| "setcols df _ _ = df"

text \<open>The cell "Feature scaling".\<close>

definition scale_cell :: "frame \<Rightarrow> error + frame" where
  "scale_cell data =
     ebind (getcols data numeric_cols) (\<lambda>cols.
     ebind (StandardScaler_fit_transform cols) (\<lambda>xss.
     Inr (setcols data numeric_cols xss)))"

section \<open>Feature augmenter\<close>

definition add_ratio :: "frame \<Rightarrow> error + frame" where
  "add_ratio X_part =
     ebind (getnum X_part ''MonthlyCharges'') (\<lambda>mc.
     ebind (getnum X_part ''Tenure'') (\<lambda>tn.
     Inr (X_part(''monthly_to_tenure_ratio'' \<mapsto>
            NumCol (series_div mc (np_where (series_eq tn 0) 1 tn))))))"

text \<open>The cell "Example feature engineering": the train subset, then the test subset.\<close>

definition feature_engineering :: "frame \<times> frame \<Rightarrow> error + frame \<times> frame" where
  "feature_engineering p =
     ebind (add_ratio (fst p)) (\<lambda>X_train1.
     ebind (add_ratio (snd p)) (\<lambda>X_test1.
     Inr (X_train1, X_test1)))"

section \<open>Train/test split\<close>

text \<open>
  \<^verbatim>\<open>train_test_split\<close> of scikit-learn draws from a random source seeded with
  \<^verbatim>\<open>random_state=42\<close>. The values drawn are again the input of the model:
  \<open>permutation rng j xs\<close> is the result of the \<open>j\<close>-th call \<^verbatim>\<open>rng.permutation(xs)\<close>, and
  \<open>choice rng j inds k\<close> is the result of \<^verbatim>\<open>rng.choice(inds, size=k, replace=False)\<close> in
  the \<open>j\<close>-th call of \<^verbatim>\<open>_approximate_mode\<close>. \<open>valid_rng\<close> is what numpy guarantees: a
  permutation has the elements of its argument, and a choice without replacement from
  different elements \<open>inds\<close> is \<open>k\<close> different elements of \<open>inds\<close>.
\<close>

record split_rng =
  permutation :: "nat \<Rightarrow> nat list \<Rightarrow> nat list"
  choice :: "nat \<Rightarrow> nat list \<Rightarrow> nat \<Rightarrow> nat list"

definition valid_rng :: "split_rng \<Rightarrow> bool" where
  "valid_rng rng \<longleftrightarrow>
     (\<forall>j xs. mset (permutation rng j xs) = mset xs) \<and>
     (\<forall>j inds k. distinct inds \<longrightarrow> k \<le> length inds \<longrightarrow>
        length (choice rng j inds k) = k \<and> distinct (choice rng j inds k) \<and>
        set (choice rng j inds k) \<subseteq> set inds)"

text \<open>
  \<^verbatim>\<open>_validate_shuffle_split\<close> with \<^verbatim>\<open>test_size=0.2\<close> and no train size: the test subset
  has \<open>ceil (0.2 * n)\<close> rows, the train subset the other rows, and an empty train subset
  raises ValueError.
\<close>

definition test_size :: real where
  "test_size = 2 / 10"

definition validate_shuffle_split :: "nat \<Rightarrow> error + nat \<times> nat" where
  "validate_shuffle_split n_samples =
     (let n_test = nat \<lceil>test_size * real n_samples\<rceil>;
          n_train = n_samples - n_test
      in if n_train = 0 then Inl ValueError else Inr (n_train, n_test))"

text \<open>
  \<^verbatim>\<open>_approximate_mode(class_counts, n_draws, rng)\<close>: every class gets the floor of its
  share of the draws, and the draws that are left go to the classes with the largest
  remainders, one each, ties broken by the random source. The loop runs over the
  different remainders in descending order.
\<close>

fun add_loop ::
    "(nat list \<Rightarrow> nat \<Rightarrow> nat list) \<Rightarrow> real list \<Rightarrow> real list \<Rightarrow> nat list \<Rightarrow> nat \<Rightarrow> nat list" where
  "add_loop pick remainder [] floored need_to_add = floored"
| "add_loop pick remainder (v # values) floored need_to_add =
     (let inds = filter (\<lambda>i. remainder ! i = v) [0 ..< length remainder];
          add_now = min (length inds) need_to_add;
          inds1 = pick inds add_now;
          floored1 = map (\<lambda>i. if i \<in> set inds1 then floored ! i + 1 else floored ! i)
                       [0 ..< length floored];
          need1 = need_to_add - add_now
      in if need1 = 0 then floored1 else add_loop pick remainder values floored1 need1)"

definition approximate_mode ::
    "(nat list \<Rightarrow> nat \<Rightarrow> nat list) \<Rightarrow> nat list \<Rightarrow> nat \<Rightarrow> nat list" where
  "approximate_mode pick class_counts n_draws =
     (let continuous = map (\<lambda>c. real c / real (sum_list class_counts) * real n_draws)
                         class_counts;
          floored = map (\<lambda>x. nat \<lfloor>x\<rfloor>) continuous;
          need_to_add = n_draws - sum_list floored
      in if 0 < need_to_add then
           (let remainder = map (\<lambda>x. x - real (nat \<lfloor>x\<rfloor>)) continuous;
                values = rev (sort (remdups remainder))
            in add_loop pick remainder values floored need_to_add)
         else floored)"

text \<open>\<^verbatim>\<open>a.take(js, mode="clip")\<close>: a position beyond the end reads the last element.\<close>

definition take_clip :: "nat list \<Rightarrow> nat list \<Rightarrow> nat list" where
  "take_clip a js = map (\<lambda>j. a ! min j (length a - 1)) js"

text \<open>\<^verbatim>\<open>check_array\<close> on the labels: a NaN label raises ValueError.\<close>

definition has_nan :: "column \<Rightarrow> bool" where
  "has_nan col = (case col of NumCol xs \<Rightarrow> None \<in> set xs | StrCol _ \<Rightarrow> False)"

text \<open>
  \<^verbatim>\<open>StratifiedShuffleSplit._iter_indices\<close>, first split. A class with fewer than two
  rows, or fewer train or test rows than classes, raises ValueError. The counts are
  natural numbers: where the function returns, \<open>n_i\<close> is at most \<open>class_counts\<close> in every
  class (shown in the proofs about the split), so the subtraction is the one of the
  integers.
\<close>

definition stratified_shuffle_split ::
    "split_rng \<Rightarrow> column \<Rightarrow> nat \<Rightarrow> nat \<Rightarrow> error + nat list \<times> nat list" where
  "stratified_shuffle_split rng y n_train n_test =
     (if has_nan y then Inl ValueError else
      let n_classes = fst (unique_inverse y);
          y_indices = snd (unique_inverse y);
          class_counts = map (\<lambda>k. count_list y_indices k) [0 ..< n_classes]
      in if \<exists>c \<in> set class_counts. c < 2 then Inl ValueError
         else if n_train < n_classes then Inl ValueError
         else if n_test < n_classes then Inl ValueError
         else
           (let class_indices = map (\<lambda>k. filter (\<lambda>i. y_indices ! i = k) [0 ..< length y_indices])
                                  [0 ..< n_classes];
                n_i = approximate_mode (choice rng 0) class_counts n_train;
                class_counts_remaining = map (\<lambda>k. class_counts ! k - n_i ! k) [0 ..< n_classes];
                t_i = approximate_mode (choice rng 1) class_counts_remaining n_test;
                perm_indices = map (\<lambda>k. take_clip (class_indices ! k)
                                     (permutation rng k [0 ..< class_counts ! k]))
                                 [0 ..< n_classes];
                train = concat (map (\<lambda>k. take (n_i ! k) (perm_indices ! k)) [0 ..< n_classes]);
                test = concat (map (\<lambda>k. take (t_i ! k) (drop (n_i ! k) (perm_indices ! k)))
                                 [0 ..< n_classes])
            in Inr (permutation rng n_classes train, permutation rng (n_classes + 1) test)))"

text \<open>\<^verbatim>\<open>ShuffleSplit._iter_indices\<close>, first split: the test rows come first.\<close>

definition shuffle_split :: "split_rng \<Rightarrow> nat \<Rightarrow> nat \<Rightarrow> nat \<Rightarrow> nat list \<times> nat list" where
  "shuffle_split rng n_samples n_train n_test =
     (let p = permutation rng 0 [0 ..< n_samples]
      in (take n_train (drop n_test p), take n_test p))"

text \<open>Rows by position, \<^verbatim>\<open>X.iloc[idx]\<close>.\<close>

definition iloc_col :: "column \<Rightarrow> nat list \<Rightarrow> column" where
  "iloc_col col idx =
     (case col of NumCol xs \<Rightarrow> NumCol (map (\<lambda>i. xs ! i) idx)
                | StrCol xs \<Rightarrow> StrCol (map (\<lambda>i. xs ! i) idx))"

definition iloc :: "frame \<Rightarrow> nat list \<Rightarrow> frame" where
  "iloc df idx = (\<lambda>c. map_option (\<lambda>col. iloc_col col idx) (df c))"

text \<open>
  \<^verbatim>\<open>train_test_split(X, y, test_size=0.2, random_state=42, stratify=...)\<close>. The table
  and the labels have the same number of rows, the one of \<open>y\<close>.
\<close>

definition train_test_split ::
    "split_rng \<Rightarrow> frame \<Rightarrow> column \<Rightarrow> column option \<Rightarrow>
     error + frame \<times> frame \<times> column \<times> column" where
  "train_test_split rng X_all y_all stratify =
     ebind (validate_shuffle_split (col_length y_all)) (\<lambda>(n_train, n_test).
     ebind (case stratify of
              None \<Rightarrow> Inr (shuffle_split rng (col_length y_all) n_train n_test)
            | Some labels \<Rightarrow> stratified_shuffle_split rng labels n_train n_test)
       (\<lambda>(train, test).
     Inr (iloc X_all train, iloc X_all test, iloc_col y_all train, iloc_col y_all test)))"

text \<open>\<^verbatim>\<open>data.drop(columns=cs)\<close>: a missing column raises KeyError.\<close>

definition drop_columns :: "string list \<Rightarrow> frame \<Rightarrow> error + frame" where
  "drop_columns cs df =
     (case filter (\<lambda>c. df c = None) cs of
        [] \<Rightarrow> Inr (df |` (- set cs))
      | c # _ \<Rightarrow> Inl (KeyError c))"

text \<open>The variables of the notebook after the cell "Split dataset".\<close>

record split_vars =
  nb_X :: frame
  nb_y :: column
  nb_X_train :: frame
  nb_X_test :: frame
  nb_y_train :: column
  nb_y_test :: column

definition split_cell :: "split_rng \<Rightarrow> frame \<Rightarrow> error + split_vars" where
  "split_cell rng data =
     ebind (drop_columns [''CustomerID'', ''Churn''] data) (\<lambda>X_all.
     ebind (getcol data ''Churn'') (\<lambda>y_all.
     ebind (train_test_split rng X_all y_all (Some y_all)) (\<lambda>(X_train, X_test, y_train, y_test).
     Inr \<lparr>nb_X = X_all, nb_y = y_all, nb_X_train = X_train, nb_X_test = X_test,
          nb_y_train = y_train, nb_y_test = y_test\<rparr>)))"

text \<open>The preprocessor: the four cells of "Data preprocessing" on the table read back.\<close>

definition preprocess :: "split_rng \<Rightarrow> frame \<Rightarrow> error + split_vars" where
  "preprocess rng data =
     ebind (impute_cell data) (\<lambda>data1.
     ebind (encode_cell data1) (\<lambda>data2.
     ebind (scale_cell data2) (\<lambda>data3.
     split_cell rng data3)))"

text \<open>
  The columns that the four cells ask for: the imputer for the total charge, the encoder
  for the categorical columns, the scaler for the numeric columns, and the split for the
  customer identifier and the label.
\<close>

definition requested_cols :: "string list" where
  "requested_cols =
     ''TotalCharges'' # categorical_cols @ numeric_cols @ [''CustomerID'', ''Churn'']"

section \<open>Oversampling before the tuned-model split\<close>



section \<open>Notions for the proofs about the split\<close>

text \<open>The contract of \<^verbatim>\<open>rng.choice(inds, size=k, replace=False)\<close> for one call.\<close>

definition pick_ok :: "(nat list \<Rightarrow> nat \<Rightarrow> nat list) \<Rightarrow> bool" where
  "pick_ok pick \<longleftrightarrow> (\<forall>inds k. distinct inds \<longrightarrow> k \<le> length inds \<longrightarrow>
        length (pick inds k) = k \<and> distinct (pick inds k) \<and> set (pick inds k) \<subseteq> set inds)"

text \<open>The number of classes whose remainder is still to be visited by the loop.\<close>

definition todo :: "real list \<Rightarrow> real list \<Rightarrow> nat" where
  "todo R vs = length (filter (\<lambda>i. R ! i \<in> set vs) [0..<length R])"

text \<open>The share of class \<open>k\<close> in \<open>D\<close> draws, the entry \<open>continuous[k]\<close>.\<close>

definition share :: "nat list \<Rightarrow> nat \<Rightarrow> nat \<Rightarrow> real" where
  "share C D k = real (C ! k) / real (sum_list C) * real D"

text \<open>The classes of a numeric column, as \<open>unique_inverse\<close> orders them.\<close>

definition classes_of :: "real option list \<Rightarrow> real option list" where
  "classes_of ys = map Some (sort (remdups (non_null ys))) @ (if None \<in> set ys then [None] else [])"

text \<open>
  The rate of a label value in a label column; the churn rate is the rate of the code
  of the label Yes.
\<close>

definition class_rate :: "real option \<Rightarrow> real option list \<Rightarrow> real" where
  "class_rate v ys = real (count_list ys v) / real (length ys)"

section \<open>Reading a numeric column of a result\<close>

definition cells :: "frame \<Rightarrow> string \<Rightarrow> real option list" where
  "cells df c = (case df c of Some (NumCol xs) \<Rightarrow> xs | _ \<Rightarrow> [])"

definition column_of :: "error + frame \<Rightarrow> string \<Rightarrow> real option list" where
  "column_of r c = (case r of Inl _ \<Rightarrow> [] | Inr data \<Rightarrow> cells data c)"

text \<open>The columns of monthly charge, total charge and tenure as first generated.\<close>

definition tc0 :: "draws \<Rightarrow> real option list" where
  "tc0 d = map Some (map np_round2 (TotalCharges_draw d))"

definition mc0 :: "draws \<Rightarrow> real option list" where
  "mc0 d = map Some (map np_round2 (MonthlyCharges_draw d))"

definition tn0 :: "draws \<Rightarrow> real option list" where
  "tn0 d = map (\<lambda>x. Some (of_int x)) (Tenure_draw d)"

text \<open>
  One outcome of the random source: the first 2500 customers and the last 2500 differ in
  every numeric draw, the first 1000 churn, the first 50 rows lose their total charge
  and the first 10 rows get the inflated monthly charge.
\<close>

definition example_draws :: draws where
  "example_draws = \<lparr>
     Age_draw = replicate 2500 20 @ replicate 2500 40,
     Gender_draw = replicate n_records ''Male'',
     ContractType_draw = replicate n_records ''One year'',
     MonthlyCharges_draw = replicate 2500 30 @ replicate 2500 50,
     TotalCharges_draw = replicate 2500 600 @ replicate 2500 1000,
     TechSupport_draw = replicate n_records ''No'',
     InternetService_draw = replicate n_records ''DSL'',
     Tenure_draw = replicate 2500 2 @ replicate 2500 4,
     PaperlessBilling_draw = replicate n_records ''Yes'',
     PaymentMethod_draw = replicate n_records ''UPI'',
     Churn_draw = replicate 1000 ''Yes'' @ replicate 4000 ''No'',
     missing_idx = [0 ..< 50],
     outlier_idx = [0 ..< 10] \<rparr>"

text \<open>Small tables for the steps of the preprocessor and of the feature augmenter.\<close>

definition two_rows :: frame where
  "two_rows = (\<lambda>c. if c \<in> set numeric_cols then Some (NumCol [Some 1, Some 3]) else None)"

definition train_part :: frame where
  "train_part = [''MonthlyCharges'' \<mapsto> NumCol [Some 2, Some 3, Some (- 1)],
                 ''Tenure'' \<mapsto> NumCol [Some 0, Some 2, Some (- 2)]]"

definition test_part :: frame where
  "test_part = [''MonthlyCharges'' \<mapsto> NumCol [Some 5],
                ''Tenure'' \<mapsto> NumCol [Some 0]]"

definition constant_rows :: frame where
  "constant_rows =
     (\<lambda>c. if c \<in> set numeric_cols then Some (NumCol [Some 7, Some 7, Some 7]) else None)"

text \<open>A random source that leaves every list in its order and picks the first elements.\<close>

definition id_rng :: split_rng where
  "id_rng = \<lparr>permutation = (\<lambda>j xs. xs), choice = (\<lambda>j inds k. take k inds)\<rparr>"




text \<open>The encoded labels of the example outcome of the generator.\<close>

definition example_labels :: "real option list" where
  "example_labels = replicate 1000 (Some 1) @ replicate 4000 (Some 0)"

section \<open>Properties of the generator\<close>

lemma length_loc_assign [simp]: "length (loc_assign idx vs xs) = length xs"
  by (induction idx vs xs rule: loc_assign.induct) auto

lemma nth_loc_assign_notin:
  "i \<notin> set idx \<Longrightarrow> loc_assign idx vs xs ! i = xs ! i"
  by (induction idx vs xs rule: loc_assign.induct) auto

lemma nth_loc_assign_in:
  "distinct idx \<Longrightarrow> length vs = length idx \<Longrightarrow> k < length idx \<Longrightarrow> idx ! k < length xs \<Longrightarrow>
   loc_assign idx vs xs ! (idx ! k) = vs ! k"
proof (induction idx vs xs arbitrary: k rule: loc_assign.induct)
  case (1 i idx v vs xs)
  show ?case
  proof (cases k)
    case 0
    with 1 show ?thesis by (simp add: nth_loc_assign_notin)
  next
    case (Suc j)
    with 1 show ?thesis by simp
  qed
qed auto

lemma getnum_upd_same [simp]: "getnum (df(c \<mapsto> NumCol xs)) c = Inr xs"
  by (simp add: getnum_def getcol_def ebind_def)

lemma getnum_upd_other [simp]: "c' \<noteq> c \<Longrightarrow> getnum (df(c \<mapsto> col)) c' = getnum df c'"
  by (simp add: getnum_def getcol_def ebind_def)

lemma ebind_Inr [simp]: "ebind (Inr x) f = f x"
  by (simp add: ebind_def)

lemma ebind_Inl [simp]: "ebind (Inl e) f = Inl e"
  by (simp add: ebind_def)

lemma getnum_initial:
  "getnum (initial_table d) ''TotalCharges'' = Inr (map Some (map np_round2 (TotalCharges_draw d)))"
  "getnum (initial_table d) ''MonthlyCharges'' = Inr (map Some (map np_round2 (MonthlyCharges_draw d)))"
  "getnum (initial_table d) ''Tenure'' = Inr (map (\<lambda>x. Some (of_int x)) (Tenure_draw d))"
  by (simp_all add: initial_table_def of_floats_def of_ints_def)




lemma derived_features_initial:
  "derived_features (initial_table d) = Inr ((initial_table d)
      (''average_monthly_charges'' \<mapsto> NumCol (series_div (tc0 d) (np_where (series_eq (tn0 d) 0) 1 (tn0 d))),
       ''customer_lifetime_value'' \<mapsto> NumCol (series_mul (mc0 d) (tn0 d))))"
  by (simp add: derived_features_def getnum_initial tc0_def mc0_def tn0_def)

lemma generate_eq:
  assumes "valid_draws d"
  shows "generate d = Inr ((initial_table d)
      (''average_monthly_charges'' \<mapsto> NumCol (series_div (tc0 d) (np_where (series_eq (tn0 d) 0) 1 (tn0 d))),
       ''customer_lifetime_value'' \<mapsto> NumCol (series_mul (mc0 d) (tn0 d)),
       ''TotalCharges'' \<mapsto> NumCol (loc_assign (missing_idx d) (replicate 50 None) (tc0 d)),
       ''MonthlyCharges'' \<mapsto> NumCol (loc_assign (outlier_idx d)
            (map (\<lambda>x. fmul x (Some (3 / 2))) (loc_get (outlier_idx d) (mc0 d))) (mc0 d))))"
proof -
  from assms have m: "length (missing_idx d) = 50" "\<forall>i\<in>set (missing_idx d). i < n_records"
    and out: "\<forall>i\<in>set (outlier_idx d). i < n_records"
    and len: "length (TotalCharges_draw d) = n_records" "length (MonthlyCharges_draw d) = n_records"
    by (simp_all add: valid_draws_def choice_no_replace_def list_all_iff)
  show ?thesis
    unfolding generate_def derived_features_initial
    by (simp add: inject_missing_def inject_outliers_def getnum_initial loc_set_def m out len
        tc0_def mc0_def)
qed

lemma rint_ge: "of_int n \<le> y \<Longrightarrow> n \<le> rint y"
  unfolding rint_def Let_def by (auto simp: le_floor_iff) linarith+

lemma np_round2_pos: "20 \<le> x \<Longrightarrow> 20 \<le> np_round2 x"
proof -
  assume "20 \<le> x"
  then have "of_int 2000 \<le> x * 100" by simp
  then have "2000 \<le> rint (x * 100)" by (rule rint_ge)
  then have "(2000::real) \<le> of_int (rint (x * 100))" by linarith
  then show ?thesis by (simp add: np_round2_def)
qed

lemma rint_of_int [simp]: "rint (of_int n) = n"
  by (simp add: rint_def)

lemma count_upt_set:
  assumes "distinct idx" "\<forall>i\<in>set idx. i < n" "\<forall>i<n. P i \<longleftrightarrow> i \<in> set idx"
  shows "length (filter P [0..<n]) = length idx"
proof -
  have "set (filter P [0..<n]) = set idx" using assms by auto
  moreover have "distinct (filter P [0..<n])" by simp
  ultimately have "length (filter P [0..<n]) = card (set idx)"
    by (metis distinct_card)
  then show ?thesis using assms(1) by (simp add: distinct_card)
qed

lemma valid_lengths:
  assumes "valid_draws d"
  shows "length (tc0 d) = n_records" "length (mc0 d) = n_records" "length (tn0 d) = n_records"
  using assms by (simp_all add: valid_draws_def tc0_def mc0_def tn0_def)

lemma valid_tenure:
  assumes "valid_draws d" "i < n_records"
  shows "1 \<le> Tenure_draw d ! i \<and> Tenure_draw d ! i \<le> 71"
proof -
  from assms have "Tenure_draw d ! i \<in> set (Tenure_draw d)" by (simp add: valid_draws_def)
  with assms(1) show ?thesis by (auto simp: valid_draws_def list_all_iff)
qed

lemma valid_monthly:
  assumes "valid_draws d" "i < n_records"
  shows "20 \<le> np_round2 (MonthlyCharges_draw d ! i)"
proof -
  from assms have "MonthlyCharges_draw d ! i \<in> set (MonthlyCharges_draw d)" by (simp add: valid_draws_def)
  with assms(1) have "20 \<le> MonthlyCharges_draw d ! i" by (auto simp: valid_draws_def list_all_iff)
  then show ?thesis by (rule np_round2_pos)
qed

lemma tn0_nth:
  "valid_draws d \<Longrightarrow> i < n_records \<Longrightarrow> tn0 d ! i = Some (of_int (Tenure_draw d ! i))"
  by (simp add: tn0_def valid_draws_def)

lemma mc0_nth:
  "valid_draws d \<Longrightarrow> i < n_records \<Longrightarrow> mc0 d ! i = Some (np_round2 (MonthlyCharges_draw d ! i))"
  by (simp add: mc0_def valid_draws_def)

lemma tc0_nth:
  "valid_draws d \<Longrightarrow> i < n_records \<Longrightarrow> tc0 d ! i = Some (np_round2 (TotalCharges_draw d ! i))"
  by (simp add: tc0_def valid_draws_def)

lemma guard_never:
  assumes "valid_draws d" "i < n_records"
  shows "\<not> series_eq (tn0 d) 0 ! i"
  using valid_tenure[OF assms] valid_lengths[OF assms(1)] assms
  by (simp add: series_eq_def tn0_nth)

lemma avg_nth:
  assumes "valid_draws d" "i < n_records"
  shows "series_div (tc0 d) (np_where (series_eq (tn0 d) 0) 1 (tn0 d)) ! i =
         Some (np_round2 (TotalCharges_draw d ! i) / of_int (Tenure_draw d ! i))"
  using valid_tenure[OF assms] valid_lengths[OF assms(1)] assms guard_never[OF assms]
  by (simp add: series_div_def np_where_def series_eq_def tn0_nth tc0_nth)

lemma clv_nth:
  assumes "valid_draws d" "i < n_records"
  shows "series_mul (mc0 d) (tn0 d) ! i =
         Some (np_round2 (MonthlyCharges_draw d ! i) * of_int (Tenure_draw d ! i))"
  using valid_lengths[OF assms(1)] assms
  by (simp add: series_mul_def tn0_nth mc0_nth)

lemma valid_idx:
  assumes "valid_draws d"
  shows "length (missing_idx d) = 50" "distinct (missing_idx d)" "\<forall>i\<in>set (missing_idx d). i < n_records"
    "length (outlier_idx d) = 10" "distinct (outlier_idx d)" "\<forall>i\<in>set (outlier_idx d). i < n_records"
  using assms by (simp_all add: valid_draws_def choice_no_replace_def list_all_iff)

lemma tc_final_nth:
  assumes "valid_draws d" "i < n_records"
  shows "loc_assign (missing_idx d) (replicate 50 None) (tc0 d) ! i =
     (if i \<in> set (missing_idx d) then None else Some (np_round2 (TotalCharges_draw d ! i)))"
proof (cases "i \<in> set (missing_idx d)")
  case True
  then obtain k where k: "k < length (missing_idx d)" "missing_idx d ! k = i"
    by (auto simp: in_set_conv_nth)
  from nth_loc_assign_in[of "missing_idx d" "replicate 50 None" k "tc0 d"] k
    valid_idx[OF assms(1)] valid_lengths[OF assms(1)] assms(2) True
  show ?thesis by simp
next
  case False
  then show ?thesis using assms by (simp add: nth_loc_assign_notin tc0_nth)
qed

lemma mc_final_nth:
  assumes "valid_draws d" "i < n_records"
  shows "loc_assign (outlier_idx d)
            (map (\<lambda>x. fmul x (Some (3 / 2))) (loc_get (outlier_idx d) (mc0 d))) (mc0 d) ! i =
     (if i \<in> set (outlier_idx d) then Some (np_round2 (MonthlyCharges_draw d ! i) * (3 / 2))
      else Some (np_round2 (MonthlyCharges_draw d ! i)))"
proof (cases "i \<in> set (outlier_idx d)")
  case True
  then obtain k where k: "k < length (outlier_idx d)" "outlier_idx d ! k = i"
    by (auto simp: in_set_conv_nth)
  from nth_loc_assign_in[of "outlier_idx d"
      "map (\<lambda>x. fmul x (Some (3 / 2))) (loc_get (outlier_idx d) (mc0 d))" k "mc0 d"] k
    valid_idx[OF assms(1)] valid_lengths[OF assms(1)] assms True
  show ?thesis by (simp add: loc_get_def mc0_nth)
next
  case False
  then show ?thesis using assms by (simp add: nth_loc_assign_notin mc0_nth)
qed

text \<open>
  Claim C9. Every row of the generated table has an integer tenure between 1 and 71, so
  no row has tenure 0, the comparison \<^verbatim>\<open>data['Tenure'] == 0\<close> is false in every row and
  \<^verbatim>\<open>np.where\<close> never takes the replacement 1 in the average monthly charge.
\<close>

theorem tenure_range:
  assumes "valid_draws d"
  shows "\<exists>data tn. generate d = Inr data \<and> data ''Tenure'' = Some (NumCol tn) \<and>
           length tn = n_records \<and>
           (\<forall>i<n_records. \<exists>t::int. tn ! i = Some (of_int t) \<and> 1 \<le> t \<and> t \<le> 71) \<and>
           (\<forall>i<n_records. tn ! i \<noteq> Some 0) \<and>
           (\<forall>i<n_records. \<not> series_eq tn 0 ! i) \<and>
           np_where (series_eq tn 0) 1 tn = tn"
proof -
  let ?tn = "tn0 d"
  have len: "length ?tn = n_records" by (rule valid_lengths[OF assms])
  have rng: "\<forall>i<n_records. \<exists>t::int. ?tn ! i = Some (of_int t) \<and> 1 \<le> t \<and> t \<le> 71"
    using valid_tenure[OF assms] tn0_nth[OF assms] by blast
  have g: "\<forall>i<n_records. \<not> series_eq ?tn 0 ! i"
    using guard_never[OF assms] by blast
  have nz: "\<forall>i<n_records. ?tn ! i \<noteq> Some 0"
    using g len by (simp add: series_eq_def)
  have w: "np_where (series_eq ?tn 0) 1 ?tn = ?tn"
    using g len by (intro nth_equalityI) (simp_all add: np_where_def series_eq_def)
  have col: "initial_table d ''Tenure'' = Some (NumCol ?tn)"
    by (simp add: initial_table_def of_ints_def tn0_def)
  show ?thesis
    unfolding generate_eq[OF assms] using len rng g nz w col by simp
qed



lemma valid_example: "valid_draws example_draws"
  by (simp add: valid_draws_def example_draws_def choice_of_def choice_no_replace_def
      n_records_def list_all_iff)

text \<open>
  Claim C10. In the generated table the average monthly charge and the customer lifetime
  value are numbers (not null) in every row, also in the 50 rows whose total charge has
  been set to null: both are computed before the missing values are injected.
\<close>

theorem derived_non_null:
  assumes "valid_draws d"
  shows "\<exists>data am clv tc. generate d = Inr data \<and>
           data ''average_monthly_charges'' = Some (NumCol am) \<and>
           data ''customer_lifetime_value'' = Some (NumCol clv) \<and>
           data ''TotalCharges'' = Some (NumCol tc) \<and>
           length am = n_records \<and> length clv = n_records \<and> length tc = n_records \<and>
           (\<forall>i<n_records. am ! i \<noteq> None \<and> clv ! i \<noteq> None) \<and>
           (\<forall>i\<in>set (missing_idx d). tc ! i = None \<and> am ! i \<noteq> None \<and> clv ! i \<noteq> None)"
proof -
  let ?am = "series_div (tc0 d) (np_where (series_eq (tn0 d) 0) 1 (tn0 d))"
  let ?clv = "series_mul (mc0 d) (tn0 d)"
  let ?tc = "loc_assign (missing_idx d) (replicate 50 None) (tc0 d)"
  note len = valid_lengths[OF assms]
  have l: "length ?am = n_records" "length ?clv = n_records" "length ?tc = n_records"
    using len by (simp_all add: series_div_def series_mul_def np_where_def series_eq_def)
  have nn: "\<forall>i<n_records. ?am ! i \<noteq> None \<and> ?clv ! i \<noteq> None"
    using avg_nth[OF assms] clv_nth[OF assms] by simp
  have ms: "\<forall>i\<in>set (missing_idx d). ?tc ! i = None \<and> ?am ! i \<noteq> None \<and> ?clv ! i \<noteq> None"
    using nn valid_idx(3)[OF assms] tc_final_nth[OF assms] by simp
  show ?thesis
    unfolding generate_eq[OF assms] using l nn ms by simp
qed

text \<open>The example outcome: row 0 has a null total charge and both derived fields.\<close>

theorem derived_non_null_witness:
  "valid_draws example_draws \<and>
   (\<exists>data am clv tc. generate example_draws = Inr data \<and>
      data ''average_monthly_charges'' = Some (NumCol am) \<and>
      data ''customer_lifetime_value'' = Some (NumCol clv) \<and>
      data ''TotalCharges'' = Some (NumCol tc) \<and>
      tc ! 0 = None \<and> am ! 0 \<noteq> None \<and> clv ! 0 \<noteq> None)"
proof -
  have z: "0 \<in> set (missing_idx example_draws)" by (simp add: example_draws_def)
  from derived_non_null[OF valid_example] z valid_example show ?thesis by blast
qed

text \<open>
  Claim C1, as the notebook has it. The customer lifetime value of a row is its monthly
  charge as first generated, before the outlier injection, times its tenure. That is the
  final monthly charge times the tenure in every row outside the 10 outlier rows; in an
  outlier row the final monthly charge times the tenure is 1.5 times the customer
  lifetime value.
\<close>

theorem clv_from_first_monthly:
  assumes "valid_draws d"
  shows "\<exists>data clv mc tn. generate d = Inr data \<and>
           data ''customer_lifetime_value'' = Some (NumCol clv) \<and>
           data ''MonthlyCharges'' = Some (NumCol mc) \<and>
           data ''Tenure'' = Some (NumCol tn) \<and>
           length clv = n_records \<and> length mc = n_records \<and> length tn = n_records \<and>
           (\<forall>i<n_records.
              clv ! i = fmul (Some (np_round2 (MonthlyCharges_draw d ! i))) (tn ! i)) \<and>
           (\<forall>i<n_records. i \<notin> set (outlier_idx d) \<longrightarrow> clv ! i = fmul (mc ! i) (tn ! i)) \<and>
           (\<forall>i\<in>set (outlier_idx d). fmul (mc ! i) (tn ! i) = fmul (Some (3 / 2)) (clv ! i))"
proof -
  let ?clv = "series_mul (mc0 d) (tn0 d)"
  let ?mc = "loc_assign (outlier_idx d)
            (map (\<lambda>x. fmul x (Some (3 / 2))) (loc_get (outlier_idx d) (mc0 d))) (mc0 d)"
  let ?tn = "tn0 d"
  note len = valid_lengths[OF assms]
  have l: "length ?clv = n_records" "length ?mc = n_records" "length ?tn = n_records"
    using len by (simp_all add: series_mul_def)
  have a: "\<forall>i<n_records. ?clv ! i = fmul (Some (np_round2 (MonthlyCharges_draw d ! i))) (?tn ! i)"
    using clv_nth[OF assms] tn0_nth[OF assms] by simp
  have b: "\<forall>i<n_records. i \<notin> set (outlier_idx d) \<longrightarrow> ?clv ! i = fmul (?mc ! i) (?tn ! i)"
    using clv_nth[OF assms] tn0_nth[OF assms] mc_final_nth[OF assms] by simp
  have c: "\<forall>i\<in>set (outlier_idx d). fmul (?mc ! i) (?tn ! i) = fmul (Some (3 / 2)) (?clv ! i)"
    using clv_nth[OF assms] tn0_nth[OF assms] mc_final_nth[OF assms] valid_idx(6)[OF assms]
    by simp
  have col: "initial_table d ''Tenure'' = Some (NumCol ?tn)"
    by (simp add: initial_table_def of_ints_def tn0_def)
  show ?thesis
    unfolding generate_eq[OF assms] using l a b c col by simp
qed

lemma example_cols:
  "column_of (generate example_draws) ''customer_lifetime_value'' = series_mul (mc0 example_draws) (tn0 example_draws)"
  "column_of (generate example_draws) ''MonthlyCharges'' = loc_assign (outlier_idx example_draws)
            (map (\<lambda>x. fmul x (Some (3 / 2))) (loc_get (outlier_idx example_draws) (mc0 example_draws))) (mc0 example_draws)"
  "column_of (generate example_draws) ''Tenure'' = tn0 example_draws"
  unfolding generate_eq[OF valid_example] column_of_def cells_def
  by (simp_all add: initial_table_def of_ints_def tn0_def)

lemma np_round2_numeral [simp]: "np_round2 (numeral k) = numeral k"
proof -
  have "numeral k * (100::real) = of_int (numeral k * 100)" by simp
  then have "rint (numeral k * 100) = numeral k * 100" by (simp only: rint_of_int)
  then show ?thesis unfolding np_round2_def by simp
qed

text \<open>
  With the final monthly charge the equation fails in an outlier row. In the example
  outcome row 0 is generated with monthly charge 30 and tenure 2, so its customer
  lifetime value is 60; the outlier injection then makes its monthly charge 45, and 45
  times 2 is not 60.
\<close>

theorem clv_final_monthly_counterexample:
  "column_of (generate example_draws) ''customer_lifetime_value'' ! 0 = Some 60 \<and>
   column_of (generate example_draws) ''MonthlyCharges'' ! 0 = Some 45 \<and>
   column_of (generate example_draws) ''Tenure'' ! 0 = Some 2 \<and>
   column_of (generate example_draws) ''customer_lifetime_value'' ! 0 \<noteq>
     fmul (column_of (generate example_draws) ''MonthlyCharges'' ! 0)
          (column_of (generate example_draws) ''Tenure'' ! 0)"
proof -
  have n: "0 < n_records" by (simp add: n_records_def)
  have o: "0 \<in> set (outlier_idx example_draws)" by (simp add: example_draws_def)
  have m: "MonthlyCharges_draw example_draws ! 0 = 30" "Tenure_draw example_draws ! 0 = 2"
    by (simp_all add: example_draws_def nth_append)
  show ?thesis
    unfolding example_cols
    using clv_nth[OF valid_example n] mc_final_nth[OF valid_example n] tn0_nth[OF valid_example n] o m
    by simp
qed

text \<open>
  Claim C7. In the generated table exactly 50 rows have a null total charge and exactly
  10 rows have a monthly charge that is 1.5 times the one first generated. The rows of
  each group are the labels drawn by \<^verbatim>\<open>choice(..., replace=False)\<close>, which are pairwise
  different; the monthly charge of every other row is unchanged.
\<close>

theorem injection_counts:
  assumes "valid_draws d"
  shows "\<exists>data tc mc. generate d = Inr data \<and>
           data ''TotalCharges'' = Some (NumCol tc) \<and>
           data ''MonthlyCharges'' = Some (NumCol mc) \<and>
           length tc = n_records \<and> length mc = n_records \<and>
           length (filter (\<lambda>i. tc ! i = None) [0 ..< n_records]) = 50 \<and>
           length (filter (\<lambda>i. mc ! i = Some (np_round2 (MonthlyCharges_draw d ! i) * (3 / 2)))
                     [0 ..< n_records]) = 10 \<and>
           set (filter (\<lambda>i. tc ! i = None) [0 ..< n_records]) = set (missing_idx d) \<and>
           set (filter (\<lambda>i. mc ! i = Some (np_round2 (MonthlyCharges_draw d ! i) * (3 / 2)))
                     [0 ..< n_records]) = set (outlier_idx d) \<and>
           distinct (missing_idx d) \<and> length (missing_idx d) = 50 \<and>
           distinct (outlier_idx d) \<and> length (outlier_idx d) = 10 \<and>
           (\<forall>i<n_records. i \<notin> set (outlier_idx d) \<longrightarrow>
              mc ! i = Some (np_round2 (MonthlyCharges_draw d ! i)))"
proof -
  let ?tc = "loc_assign (missing_idx d) (replicate 50 None) (tc0 d)"
  let ?mc = "loc_assign (outlier_idx d)
            (map (\<lambda>x. fmul x (Some (3 / 2))) (loc_get (outlier_idx d) (mc0 d))) (mc0 d)"
  let ?P = "\<lambda>i. ?tc ! i = None"
  let ?Q = "\<lambda>i. ?mc ! i = Some (np_round2 (MonthlyCharges_draw d ! i) * (3 / 2))"
  note len = valid_lengths[OF assms]
  note idx = valid_idx[OF assms]
  have l: "length ?tc = n_records" "length ?mc = n_records"
    using len by simp_all
  have P: "\<forall>i<n_records. ?P i \<longleftrightarrow> i \<in> set (missing_idx d)"
    using tc_final_nth[OF assms] by simp
  have Q: "\<forall>i<n_records. ?Q i \<longleftrightarrow> i \<in> set (outlier_idx d)"
  proof (intro allI impI)
    fix i assume i: "i < n_records"
    from valid_monthly[OF assms i] have "np_round2 (MonthlyCharges_draw d ! i) \<noteq> 0" by simp
    then show "?Q i \<longleftrightarrow> i \<in> set (outlier_idx d)"
      using mc_final_nth[OF assms i] by simp
  qed
  have cP: "length (filter ?P [0 ..< n_records]) = 50"
    using count_upt_set[OF idx(2) idx(3) P] idx(1) by simp
  have cQ: "length (filter ?Q [0 ..< n_records]) = 10"
    using count_upt_set[OF idx(5) idx(6) Q] idx(4) by simp
  have sP: "set (filter ?P [0 ..< n_records]) = set (missing_idx d)"
    using P idx(3) by auto
  have sQ: "set (filter ?Q [0 ..< n_records]) = set (outlier_idx d)"
    using Q idx(6) by auto
  have u: "\<forall>i<n_records. i \<notin> set (outlier_idx d) \<longrightarrow>
              ?mc ! i = Some (np_round2 (MonthlyCharges_draw d ! i))"
    using mc_final_nth[OF assms] by simp
  show ?thesis
    unfolding generate_eq[OF assms]
    apply (intro exI conjI)
                 apply (rule refl)
                apply simp
               apply simp
              apply (rule l(1))
             apply (rule l(2))
            apply (rule cP)
           apply (rule cQ)
          apply (rule sP)
         apply (rule sQ)
        apply (rule idx(2))
       apply (rule idx(1))
      apply (rule idx(5))
     apply (rule idx(4))
    apply (rule u)
    done
qed

text \<open>The example outcome has the 50 and the 10 rows.\<close>

theorem injection_counts_witness:
  "valid_draws example_draws \<and>
   (\<exists>data tc mc. generate example_draws = Inr data \<and>
           data ''TotalCharges'' = Some (NumCol tc) \<and>
           data ''MonthlyCharges'' = Some (NumCol mc) \<and>
           length (filter (\<lambda>i. tc ! i = None) [0 ..< n_records]) = 50 \<and>
           length (filter (\<lambda>i. mc ! i =
               Some (np_round2 (MonthlyCharges_draw example_draws ! i) * (3 / 2)))
                     [0 ..< n_records]) = 10)"
  using injection_counts[OF valid_example] valid_example by blast

text \<open>The example outcome: the first row has tenure 2.\<close>

theorem tenure_range_witness:
  "valid_draws example_draws \<and>
   (\<exists>data tn. generate example_draws = Inr data \<and> data ''Tenure'' = Some (NumCol tn) \<and>
      tn ! 0 = Some 2 \<and> tn ! 0 \<noteq> Some 0 \<and> np_where (series_eq tn 0) 1 tn = tn)"
proof -
  have n: "0 < n_records" by (simp add: n_records_def)
  from tenure_range[OF valid_example] obtain data tn where
    *: "generate example_draws = Inr data" "data ''Tenure'' = Some (NumCol tn)"
      "\<forall>i<n_records. tn ! i \<noteq> Some 0" "np_where (series_eq tn 0) 1 tn = tn"
    by blast
  have "column_of (generate example_draws) ''Tenure'' = tn"
    using * by (simp add: column_of_def cells_def)
  then have "tn ! 0 = Some 2"
    using tn0_nth[OF valid_example n] unfolding example_cols
    by (simp add: example_draws_def nth_append)
  with * n valid_example show ?thesis by auto
qed

text \<open>The example outcome: row 0 is an outlier row, row 10 is not.\<close>

theorem clv_from_first_monthly_witness:
  "valid_draws example_draws \<and>
   (\<exists>data clv mc tn. generate example_draws = Inr data \<and>
      data ''customer_lifetime_value'' = Some (NumCol clv) \<and>
      data ''MonthlyCharges'' = Some (NumCol mc) \<and>
      data ''Tenure'' = Some (NumCol tn) \<and>
      clv ! 0 = fmul (Some (np_round2 30)) (tn ! 0) \<and>
      fmul (mc ! 0) (tn ! 0) = fmul (Some (3 / 2)) (clv ! 0) \<and>
      clv ! 10 = fmul (mc ! 10) (tn ! 10))"
proof -
  have n: "0 < n_records" "10 < n_records" by (simp_all add: n_records_def)
  have o: "0 \<in> set (outlier_idx example_draws)" "10 \<notin> set (outlier_idx example_draws)"
    by (simp_all add: example_draws_def)
  have m: "MonthlyCharges_draw example_draws ! 0 = 30"
    by (simp add: example_draws_def nth_append)
  from clv_from_first_monthly[OF valid_example] n o m valid_example show ?thesis
    by (metis (no_types, lifting))
qed

section \<open>Properties of the preprocessor and of the feature augmenter\<close>



lemma non_null_Nil [simp]: "non_null [] = []"
  by (simp add: non_null_def List.map_filter_def)

lemma non_null_Cons [simp]:
  "non_null (Some v # xs) = v # non_null xs" "non_null (None # xs) = non_null xs"
  by (simp_all add: non_null_def List.map_filter_def)

lemma non_null_empty_iff: "non_null xs = [] \<longleftrightarrow> (\<forall>x\<in>set xs. x = None)"
proof (induction xs)
  case Nil
  show ?case by simp
next
  case (Cons a xs)
  then show ?case by (cases a) auto
qed

lemma impute_column:
  assumes "\<exists>i<length xs. xs ! i \<noteq> None"
  shows "SimpleImputer_fit_transform (NumCol xs) =
     Inr (map (\<lambda>x. case x of None \<Rightarrow> Some (mean (non_null xs)) | Some v \<Rightarrow> Some v) xs)"
proof -
  from assms obtain i where "i < length xs" "xs ! i \<noteq> None" by blast
  then have "\<exists>x\<in>set xs. x \<noteq> None" using nth_mem by blast
  then have "non_null xs \<noteq> []"
    by (simp add: non_null_empty_iff)
  then show ?thesis by (simp add: SimpleImputer_fit_transform_def)
qed

text \<open>
  Claim C3. On a table whose total charge column is numeric and has a number in some
  row, the imputation step returns a table in which no total charge is null: every cell
  that was null holds the mean of the cells that were not null, every other cell and
  every other column is unchanged.
\<close>

theorem imputation_fills_mean:
  assumes "data ''TotalCharges'' = Some (NumCol xs)" and "\<exists>i<length xs. xs ! i \<noteq> None"
  shows "\<exists>data1 ys. impute_cell data = Inr data1 \<and>
           data1 ''TotalCharges'' = Some (NumCol ys) \<and> length ys = length xs \<and>
           (\<forall>i<length xs. ys ! i \<noteq> None) \<and>
           (\<forall>i<length xs. xs ! i = None \<longrightarrow> ys ! i = Some (mean (non_null xs))) \<and>
           (\<forall>i<length xs. xs ! i \<noteq> None \<longrightarrow> ys ! i = xs ! i) \<and>
           (\<forall>c. c \<noteq> ''TotalCharges'' \<longrightarrow> data1 c = data c)"
proof -
  let ?ys = "map (\<lambda>x. case x of None \<Rightarrow> Some (mean (non_null xs)) | Some v \<Rightarrow> Some v) xs"
  have run: "impute_cell data = Inr (data(''TotalCharges'' \<mapsto> NumCol ?ys))"
    using assms(1) impute_column[OF assms(2)] by (simp add: impute_cell_def getcol_def)
  have a: "\<forall>i<length xs. ?ys ! i \<noteq> None"
    by (simp split: option.splits)
  have b: "\<forall>i<length xs. xs ! i = None \<longrightarrow> ?ys ! i = Some (mean (non_null xs))"
    by simp
  have c: "\<forall>i<length xs. xs ! i \<noteq> None \<longrightarrow> ?ys ! i = xs ! i"
    by auto
  show ?thesis
    unfolding run using a b c by simp
qed











lemma length_scaler [simp]: "length (StandardScaler_column xs) = length xs"
  by (simp add: StandardScaler_column_def Let_def)

lemma scaler_null_iff:
  assumes "i < length xs"
  shows "StandardScaler_column xs ! i = None \<longleftrightarrow> xs ! i = None"
proof -
  have "handle_zeros_in_scale (variance (non_null xs)) (sqrt (variance (non_null xs))) \<noteq> 0"
    by (simp add: handle_zeros_in_scale_def)
  then show ?thesis using assms
    by (cases "xs ! i") (simp_all add: StandardScaler_column_def Let_def)
qed


lemma getcols_numeric:
  assumes "\<forall>c\<in>set cs. \<exists>xs. df c = Some (NumCol xs)"
  shows "getcols df cs = Inr (map (\<lambda>c. NumCol (cells df c)) cs)"
  using assms
proof (induction cs)
  case Nil
  show ?case by simp
next
  case (Cons c cs)
  then obtain xs where "df c = Some (NumCol xs)" by auto
  with Cons show ?case by (simp add: getcol_def cells_def)
qed

lemma as_float_numeric: "as_float (map (\<lambda>c. NumCol (g c)) cs) = Inr (map g cs)"
  by (induction cs) simp_all

lemma setcols_map:
  assumes "distinct cs"
  shows "setcols df cs (map h cs) c = (if c \<in> set cs then Some (NumCol (h c)) else df c)"
  using assms
proof (induction cs arbitrary: df)
  case Nil
  show ?case by simp
next
  case (Cons a cs)
  then show ?case by auto
qed

lemma distinct_numeric_cols: "distinct numeric_cols"
  by (simp add: numeric_cols_def)

lemma scale_cell_numeric:
  assumes "\<forall>c\<in>set numeric_cols. \<exists>xs. data c = Some (NumCol xs) \<and> xs \<noteq> []"
  shows "scale_cell data = Inr (setcols data numeric_cols
            (map (\<lambda>c. StandardScaler_column (cells data c)) numeric_cols))"
proof -
  from assms have p: "\<forall>c\<in>set numeric_cols. \<exists>xs. data c = Some (NumCol xs)" by blast
  from assms have ne: "\<forall>c\<in>set numeric_cols. cells data c \<noteq> []"
    by (auto simp: cells_def)
  show ?thesis
    unfolding scale_cell_def getcols_numeric[OF p]
    using ne by (auto simp add: StandardScaler_fit_transform_def as_float_numeric comp_def)
qed



lemma scaler_constant:
  assumes "\<forall>x\<in>set xs. x = Some v" "xs \<noteq> []"
  shows "StandardScaler_column xs = map (\<lambda>_. Some 0) xs"
proof -
  from assms(1) have nn: "non_null xs = replicate (length xs) v"
    by (induction xs) auto
  from assms(2) have m: "mean (non_null xs) = v"
    by (simp add: nn mean_def sum_list_replicate)
  have var: "variance (non_null xs) = 0"
    unfolding variance_def m by (simp add: nn mean_def sum_list_replicate)
  show ?thesis
    unfolding StandardScaler_column_def Let_def m var handle_zeros_in_scale_def
    using assms(1) by (auto simp: )
qed


lemma length_where_div:
  "length mc = length tn \<Longrightarrow> length (series_div mc (np_where (series_eq tn 0) 1 tn)) = length mc"
  by (simp add: series_div_def np_where_def series_eq_def)

lemma nth_where_div:
  assumes "length mc = length tn" "i < length mc"
  shows "series_div mc (np_where (series_eq tn 0) 1 tn) ! i =
         fdiv (mc ! i) (if tn ! i = Some 0 then Some 1 else tn ! i)"
  using assms by (simp add: series_div_def np_where_def series_eq_def)

lemma fdiv_one: "fdiv x (Some 1) = x"
  by (cases x) simp_all

lemma add_ratio_numeric:
  assumes "X_part ''MonthlyCharges'' = Some (NumCol mc)" "X_part ''Tenure'' = Some (NumCol tn)"
  shows "add_ratio X_part = Inr (X_part(''monthly_to_tenure_ratio'' \<mapsto>
            NumCol (series_div mc (np_where (series_eq tn 0) 1 tn))))"
  using assms by (simp add: add_ratio_def getnum_def getcol_def)

text \<open>
  Claim C2. On each subset of the split, the feature cell computes the ratio of every
  row as the monthly charge divided by the tenure, with the divisor 1 where the tenure
  is 0; in a row with tenure 0 the ratio is the monthly charge. The two subsets are
  computed one after the other, each from its own columns.
\<close>

theorem ratio_guarded:
  assumes "X_train ''MonthlyCharges'' = Some (NumCol mc)"
    and "X_train ''Tenure'' = Some (NumCol tn)"
    and "length mc = length tn"
    and "X_test ''MonthlyCharges'' = Some (NumCol mc')"
    and "X_test ''Tenure'' = Some (NumCol tn')"
    and "length mc' = length tn'"
  shows "\<exists>X_train1 X_test1 r r'.
     feature_engineering (X_train, X_test) = Inr (X_train1, X_test1) \<and>
     X_train1 ''monthly_to_tenure_ratio'' = Some (NumCol r) \<and> length r = length mc \<and>
     X_test1 ''monthly_to_tenure_ratio'' = Some (NumCol r') \<and> length r' = length mc' \<and>
     (\<forall>i<length mc. r ! i = fdiv (mc ! i) (if tn ! i = Some 0 then Some 1 else tn ! i)) \<and>
     (\<forall>i<length mc. tn ! i = Some 0 \<longrightarrow> r ! i = mc ! i) \<and>
     (\<forall>i<length mc'. r' ! i = fdiv (mc' ! i) (if tn' ! i = Some 0 then Some 1 else tn' ! i)) \<and>
     (\<forall>i<length mc'. tn' ! i = Some 0 \<longrightarrow> r' ! i = mc' ! i) \<and>
     (\<forall>c. c \<noteq> ''monthly_to_tenure_ratio'' \<longrightarrow> X_train1 c = X_train c \<and> X_test1 c = X_test c)"
proof -
  let ?r = "series_div mc (np_where (series_eq tn 0) 1 tn)"
  let ?r' = "series_div mc' (np_where (series_eq tn' 0) 1 tn')"
  have run: "feature_engineering (X_train, X_test) =
      Inr (X_train(''monthly_to_tenure_ratio'' \<mapsto> NumCol ?r),
           X_test(''monthly_to_tenure_ratio'' \<mapsto> NumCol ?r'))"
    by (simp add: feature_engineering_def add_ratio_numeric[OF assms(1,2)]
        add_ratio_numeric[OF assms(4,5)])
  have a: "\<forall>i<length mc. ?r ! i = fdiv (mc ! i) (if tn ! i = Some 0 then Some 1 else tn ! i)"
    using nth_where_div[OF assms(3)] by blast
  have b: "\<forall>i<length mc. tn ! i = Some 0 \<longrightarrow> ?r ! i = mc ! i"
    using nth_where_div[OF assms(3)] by (simp add: fdiv_one)
  have a': "\<forall>i<length mc'. ?r' ! i = fdiv (mc' ! i) (if tn' ! i = Some 0 then Some 1 else tn' ! i)"
    using nth_where_div[OF assms(6)] by blast
  have b': "\<forall>i<length mc'. tn' ! i = Some 0 \<longrightarrow> ?r' ! i = mc' ! i"
    using nth_where_div[OF assms(6)] by (simp add: fdiv_one)
  show ?thesis
    unfolding run
    using a b a' b' length_where_div[OF assms(3)] length_where_div[OF assms(6)] by simp
qed



text \<open>Rows with tenure 0 in both subsets, and rows with tenure 2 and -2.\<close>

theorem ratio_guarded_witness:
  "\<exists>X_train1 X_test1 r r'.
     feature_engineering (train_part, test_part) = Inr (X_train1, X_test1) \<and>
     X_train1 ''monthly_to_tenure_ratio'' = Some (NumCol r) \<and>
     X_test1 ''monthly_to_tenure_ratio'' = Some (NumCol r') \<and>
     r ! 0 = Some 2 \<and> r ! 1 = Some (3 / 2) \<and> r ! 2 = Some (1 / 2) \<and> r' ! 0 = Some 5"
proof -
  let ?mc = "[Some (2::real), Some 3, Some (- 1)]"
  let ?tn = "[Some (0::real), Some 2, Some (- 2)]"
  have h: "train_part ''MonthlyCharges'' = Some (NumCol ?mc)"
    "train_part ''Tenure'' = Some (NumCol ?tn)" "length ?mc = length ?tn"
    "test_part ''MonthlyCharges'' = Some (NumCol [Some 5])"
    "test_part ''Tenure'' = Some (NumCol [Some 0])" "length [Some (5::real)] = length [Some (0::real)]"
    by (simp_all add: train_part_def test_part_def)
  from ratio_guarded[OF h] obtain X_train1 X_test1 r r' where
    *: "feature_engineering (train_part, test_part) = Inr (X_train1, X_test1)"
       "X_train1 ''monthly_to_tenure_ratio'' = Some (NumCol r)"
       "X_test1 ''monthly_to_tenure_ratio'' = Some (NumCol r')"
       "\<forall>i<length ?mc. r ! i = fdiv (?mc ! i) (if ?tn ! i = Some 0 then Some 1 else ?tn ! i)"
       "\<forall>i<length [Some (5::real)]. [Some (0::real)] ! i = Some 0 \<longrightarrow> r' ! i = [Some 5] ! i"
    by (elim exE conjE) (rule that, assumption+)
  from *(4) have "r ! 0 = Some 2" "r ! 1 = Some (3 / 2)" "r ! 2 = Some (1 / 2)"
    by simp_all
  moreover from *(5) have "r' ! 0 = Some 5" by simp
  ultimately show ?thesis using *(1,2,3) by blast
qed

section \<open>Errors of the preprocessor, and the order of oversampling and split\<close>

lemma ebind_InrE:
  assumes "ebind m f = Inr y"
  obtains x where "m = Inr x" "f x = Inr y"
  using assms by (cases m) (simp_all add: ebind_def)

lemma getcol_Inr: "getcol df c = Inr col \<Longrightarrow> df c = Some col"
  by (simp add: getcol_def split: option.splits)

lemma impute_cell_dom:
  assumes "impute_cell data = Inr data1"
  shows "data ''TotalCharges'' \<noteq> None \<and> (\<forall>c. data1 c = None \<longleftrightarrow> data c = None)"
proof -
  from assms obtain col tc where c: "getcol data ''TotalCharges'' = Inr col"
    and d: "data1 = data(''TotalCharges'' \<mapsto> NumCol tc)"
    unfolding impute_cell_def by (auto elim!: ebind_InrE)
  from getcol_Inr[OF c] d show ?thesis by auto
qed

lemma encode_col_dom:
  assumes "encode_col c data = Inr data1"
  shows "data c \<noteq> None \<and> (\<forall>c'. data1 c' = None \<longleftrightarrow> data c' = None)"
proof -
  from assms obtain col where c: "getcol data c = Inr col"
    and d: "data1 = data(c \<mapsto> LabelEncoder_fit_transform col)"
    unfolding encode_col_def by (auto elim!: ebind_InrE)
  from getcol_Inr[OF c] d show ?thesis by auto
qed

lemma encode_loop_dom:
  assumes "encode_loop cs data = Inr data1"
  shows "(\<forall>c\<in>set cs. data c \<noteq> None) \<and> (\<forall>c'. data1 c' = None \<longleftrightarrow> data c' = None)"
  using assms
proof (induction cs arbitrary: data)
  case Nil
  then show ?case by simp
next
  case (Cons c cs)
  from Cons.prems obtain d where d: "encode_col c data = Inr d" "encode_loop cs d = Inr data1"
    by (auto elim!: ebind_InrE)
  from encode_col_dom[OF d(1)] Cons.IH[OF d(2)] show ?case by auto
qed

lemma getcols_dom: "getcols df cs = Inr cols \<Longrightarrow> \<forall>c\<in>set cs. df c \<noteq> None"
proof (induction cs arbitrary: cols)
  case Nil
  show ?case by simp
next
  case (Cons c cs)
  from Cons.prems obtain col cols' where "getcol df c = Inr col" "getcols df cs = Inr cols'"
    by (auto elim!: ebind_InrE)
  with Cons.IH getcol_Inr show ?case by fastforce
qed

lemma setcols_dom:
  "(\<forall>c\<in>set cs. df c \<noteq> None) \<Longrightarrow> setcols df cs xss c' = None \<longleftrightarrow> df c' = None"
  by (induction df cs xss rule: setcols.induct) auto

lemma scale_cell_dom:
  assumes "scale_cell data = Inr data1"
  shows "(\<forall>c\<in>set numeric_cols. data c \<noteq> None) \<and> (\<forall>c'. data1 c' = None \<longleftrightarrow> data c' = None)"
proof -
  from assms obtain cols xss where c: "getcols data numeric_cols = Inr cols"
    and d: "data1 = setcols data numeric_cols xss"
    unfolding scale_cell_def by (auto elim!: ebind_InrE)
  from getcols_dom[OF c] d setcols_dom show ?thesis by simp
qed

lemma drop_columns_dom: "drop_columns cs df = Inr X_all \<Longrightarrow> \<forall>c\<in>set cs. df c \<noteq> None"
  by (auto simp: drop_columns_def filter_empty_conv split: list.splits)

lemma split_cell_dom:
  assumes "split_cell rng data = Inr vars"
  shows "data ''CustomerID'' \<noteq> None \<and> data ''Churn'' \<noteq> None"
proof -
  from assms obtain X_all where "drop_columns [''CustomerID'', ''Churn''] data = Inr X_all"
    unfolding split_cell_def by (auto elim!: ebind_InrE)
  from drop_columns_dom[OF this] show ?thesis by simp
qed


lemma preprocess_requires:
  assumes "preprocess rng data = Inr vars"
  shows "\<forall>c\<in>set requested_cols. data c \<noteq> None"
proof -
  from assms obtain d1 d2 d3 where s: "impute_cell data = Inr d1" "encode_cell d1 = Inr d2"
    "scale_cell d2 = Inr d3" "split_cell rng d3 = Inr vars"
    unfolding preprocess_def by (auto elim!: ebind_InrE)
  note a = impute_cell_dom[OF s(1)]
  note b = encode_loop_dom[OF s(2)[unfolded encode_cell_def]]
  note c = scale_cell_dom[OF s(3)]
  note d = split_cell_dom[OF s(4)]
  have 1: "data ''TotalCharges'' \<noteq> None" using a by simp
  have 2: "\<forall>c\<in>set categorical_cols. data c \<noteq> None" using a b by simp
  have 3: "\<forall>c\<in>set numeric_cols. data c \<noteq> None" using a b c by simp
  have 4: "data ''CustomerID'' \<noteq> None" "data ''Churn'' \<noteq> None" using a b c d by simp_all
  show ?thesis
  proof
    fix c assume "c \<in> set requested_cols"
    then consider "c = ''TotalCharges''" | "c \<in> set categorical_cols" | "c \<in> set numeric_cols"
      | "c = ''CustomerID''" | "c = ''Churn''"
      unfolding requested_cols_def by auto
    then show "data c \<noteq> None" using 1 2 3 4 by cases simp_all
  qed
qed



text \<open>
  Claim C8. The preprocessor returns an error when one of the columns it asks for is
  not in the table: no cell catches the error of an earlier cell. The scaling step
  never divides by zero: a cell is null after the step exactly when it was null before,
  and a constant column, whose variance is zero, becomes the column of zeros, because
  its scale is replaced by 1.
\<close>

theorem missing_column_fails_and_scale_guarded:
  "(c \<in> set requested_cols \<longrightarrow> data c = None \<longrightarrow> (\<exists>e. preprocess rng data = Inl e)) \<and>
   ((\<forall>c\<in>set numeric_cols. \<exists>xs. data' c = Some (NumCol xs) \<and> xs \<noteq> []) \<longrightarrow>
    c' \<in> set numeric_cols \<longrightarrow> data' c' = Some (NumCol xs) \<longrightarrow>
    (\<exists>data1 ys. scale_cell data' = Inr data1 \<and> data1 c' = Some (NumCol ys) \<and>
       length ys = length xs \<and>
       (\<forall>i<length xs. ys ! i = None \<longleftrightarrow> xs ! i = None) \<and>
       ((\<forall>x\<in>set xs. x = Some v) \<longrightarrow> ys = map (\<lambda>_. Some 0) xs)))"
proof (intro conjI impI)
  assume c: "c \<in> set requested_cols" and n: "data c = None"
  show "\<exists>e. preprocess rng data = Inl e"
  proof (cases "preprocess rng data")
    case (Inl e)
    then show ?thesis by blast
  next
    case (Inr vars)
    from preprocess_requires[OF Inr] c n show ?thesis by blast
  qed
next
  assume h: "\<forall>c\<in>set numeric_cols. \<exists>xs. data' c = Some (NumCol xs) \<and> xs \<noteq> []"
    and c': "c' \<in> set numeric_cols" and xs: "data' c' = Some (NumCol xs)"
  let ?data1 = "setcols data' numeric_cols
            (map (\<lambda>c. StandardScaler_column (cells data' c)) numeric_cols)"
  have run: "scale_cell data' = Inr ?data1" by (rule scale_cell_numeric[OF h])
  have "cells data' c' = xs" using xs by (simp add: cells_def)
  then have col: "?data1 c' = Some (NumCol (StandardScaler_column xs))"
    using setcols_map[OF distinct_numeric_cols, of data' "\<lambda>c. StandardScaler_column (cells data' c)" c'] c'
    by simp
  from h c' xs have ne: "xs \<noteq> []" by fastforce
  have k: "(\<forall>x\<in>set xs. x = Some v) \<longrightarrow> StandardScaler_column xs = map (\<lambda>_. Some 0) xs"
    using scaler_constant[OF _ ne] by blast
  show "\<exists>data1 ys. scale_cell data' = Inr data1 \<and> data1 c' = Some (NumCol ys) \<and>
       length ys = length xs \<and>
       (\<forall>i<length xs. ys ! i = None \<longleftrightarrow> xs ! i = None) \<and>
       ((\<forall>x\<in>set xs. x = Some v) \<longrightarrow> ys = map (\<lambda>_. Some 0) xs)"
    unfolding run using col k scaler_null_iff[of _ xs] by simp
qed

text \<open>A table without the column Gender, and a table whose columns are all 7.\<close>

theorem missing_column_fails_and_scale_guarded_witness:
  "(\<exists>e. preprocess id_rng two_rows = Inl e) \<and>
   (\<exists>data1. scale_cell constant_rows = Inr data1 \<and>
      data1 ''Age'' = Some (NumCol [Some 0, Some 0, Some 0]))"
proof -
  have g: "''Gender'' \<in> set requested_cols" "two_rows ''Gender'' = None"
    by (simp_all add: requested_cols_def categorical_cols_def two_rows_def numeric_cols_def)
  have h: "\<forall>c\<in>set numeric_cols. \<exists>xs. constant_rows c = Some (NumCol xs) \<and> xs \<noteq> []"
    by (simp add: constant_rows_def)
  have a: "''Age'' \<in> set numeric_cols" by (simp add: numeric_cols_def)
  have c: "constant_rows ''Age'' = Some (NumCol [Some 7, Some 7, Some 7])"
    using a by (simp add: constant_rows_def)
  have k: "\<forall>x\<in>set [Some (7::real), Some 7, Some 7]. x = Some 7" by simp
  note t = missing_column_fails_and_scale_guarded[of "''Gender''" two_rows id_rng constant_rows
      "''Age''" "[Some 7, Some 7, Some 7]" 7]
  from t g have 1: "\<exists>e. preprocess id_rng two_rows = Inl e" by blast
  from t h a c k have 2: "\<exists>data1. scale_cell constant_rows = Inr data1 \<and>
      data1 ''Age'' = Some (NumCol [Some 0, Some 0, Some 0])"
    by fastforce
  from 1 2 show ?thesis by blast
qed















section \<open>The stratified split\<close>


lemma sum_list_indicator:
  assumes "distinct js" "set js \<subseteq> {0..<n}"
  shows "sum_list (map (\<lambda>i. if i \<in> set js then 1 else 0) [0..<n]) = length js"
proof -
  have "sum_list (map (\<lambda>i. if i \<in> set js then 1 else (0::nat)) [0..<n]) =
        length (filter (\<lambda>i. i \<in> set js) [0..<n])"
    by (induction n) simp_all
  also have "\<dots> = card (set (filter (\<lambda>i. i \<in> set js) [0..<n]))"
    by (rule distinct_card[symmetric]) simp
  also have "set (filter (\<lambda>i. i \<in> set js) [0..<n]) = set js"
    using assms(2) by auto
  also have "card (set js) = length js" using assms(1) by (rule distinct_card)
  finally show ?thesis .
qed

lemma sum_list_incr:
  assumes "distinct js" "set js \<subseteq> {0..<length fl}"
  shows "sum_list (map (\<lambda>i. if i \<in> set js then fl ! i + 1 else fl ! i) [0..<length fl]) =
         sum_list fl + length js"
proof -
  have "map (\<lambda>i. if i \<in> set js then fl ! i + 1 else fl ! i) [0..<length fl] =
        map (\<lambda>i. fl ! i + (if i \<in> set js then 1 else 0)) [0..<length fl]"
    by simp
  then have "sum_list (map (\<lambda>i. if i \<in> set js then fl ! i + 1 else fl ! i) [0..<length fl]) =
        sum_list (map (\<lambda>i. fl ! i) [0..<length fl]) +
        sum_list (map (\<lambda>i. if i \<in> set js then 1 else 0) [0..<length fl])"
    by (simp only: sum_list_addf)
  then show ?thesis
    by (simp add: map_nth sum_list_indicator[OF assms])
qed


lemma todo_Cons:
  assumes "v \<notin> set vs"
  shows "todo R (v # vs) = length (filter (\<lambda>i. R ! i = v) [0..<length R]) + todo R vs"
proof -
  have "length (filter (\<lambda>i. R ! i = v \<or> R ! i \<in> set vs) xs) =
        length (filter (\<lambda>i. R ! i = v) xs) + length (filter (\<lambda>i. R ! i \<in> set vs) xs)" for xs
    using assms by (induction xs) auto
  then show ?thesis by (simp add: todo_def)
qed

lemma add_loop_props:
  assumes "pick_ok pick" "distinct vs" "length fl = length R"
  shows "length (add_loop pick R vs fl need) = length R \<and>
     (\<forall>i<length R. add_loop pick R vs fl need ! i = fl ! i \<or>
        (add_loop pick R vs fl need ! i = fl ! i + 1 \<and> R ! i \<in> set vs)) \<and>
     sum_list (add_loop pick R vs fl need) = sum_list fl + min need (todo R vs)"
  using assms(2,3)
proof (induction vs arbitrary: fl need)
  case Nil
  then show ?case by (simp add: todo_def)
next
  case (Cons v vs)
  let ?inds = "filter (\<lambda>i. R ! i = v) [0..<length R]"
  let ?add = "min (length ?inds) need"
  let ?inds1 = "pick ?inds ?add"
  let ?fl1 = "map (\<lambda>i. if i \<in> set ?inds1 then fl ! i + 1 else fl ! i) [0..<length fl]"
  let ?need1 = "need - ?add"
  have d: "distinct ?inds" by simp
  from assms(1) d have p: "length ?inds1 = ?add" "distinct ?inds1" "set ?inds1 \<subseteq> set ?inds"
    unfolding pick_ok_def by (metis min.cobounded1)+
  from p(3) have sub: "set ?inds1 \<subseteq> {0..<length fl}" using Cons.prems(2) by auto
  have len1: "length ?fl1 = length R" using Cons.prems(2) by simp
  have sum1: "sum_list ?fl1 = sum_list fl + ?add"
    using sum_list_incr[OF p(2) sub] p(1) by simp
  have el1: "\<forall>i<length R. ?fl1 ! i = fl ! i \<or> (?fl1 ! i = fl ! i + 1 \<and> R ! i = v)"
    using p(3) Cons.prems(2) by auto
  from Cons.prems(1) have v: "v \<notin> set vs" "distinct vs" by simp_all
  have td: "todo R (v # vs) = length ?inds + todo R vs" by (rule todo_Cons[OF v(1)])
  show ?case
  proof (cases "?need1 = 0")
    case True
    then have eq: "add_loop pick R (v # vs) fl need = ?fl1" by (simp add: Let_def)
    from True have "need \<le> length ?inds" by simp
    then have "min need (todo R (v # vs)) = ?add" unfolding td by simp
    with len1 sum1 el1 show ?thesis unfolding eq by auto
  next
    case False
    then have eq: "add_loop pick R (v # vs) fl need = add_loop pick R vs ?fl1 ?need1"
      by (simp add: Let_def)
    note IH = Cons.IH[OF v(2) len1, of ?need1]
    from False have big: "length ?inds < need" by simp
    then have "?add + min ?need1 (todo R vs) = min need (todo R (v # vs))"
      unfolding td by simp
    then have s: "sum_list (add_loop pick R vs ?fl1 ?need1) = sum_list fl + min need (todo R (v # vs))"
      using IH sum1 by simp
    have e: "\<forall>i<length R. add_loop pick R vs ?fl1 ?need1 ! i = fl ! i \<or>
        (add_loop pick R vs ?fl1 ?need1 ! i = fl ! i + 1 \<and> R ! i \<in> set (v # vs))"
    proof (intro allI impI)
      fix i assume i: "i < length R"
      from IH i have a: "add_loop pick R vs ?fl1 ?need1 ! i = ?fl1 ! i \<or>
        (add_loop pick R vs ?fl1 ?need1 ! i = ?fl1 ! i + 1 \<and> R ! i \<in> set vs)" by blast
      from el1 i have b: "?fl1 ! i = fl ! i \<or> (?fl1 ! i = fl ! i + 1 \<and> R ! i = v)" by blast
      from a b v(1) show "add_loop pick R vs ?fl1 ?need1 ! i = fl ! i \<or>
        (add_loop pick R vs ?fl1 ?need1 ! i = fl ! i + 1 \<and> R ! i \<in> set (v # vs))"
        by auto
    qed
    from IH s e show ?thesis unfolding eq by simp
  qed
qed


lemma sum_list_real: "real (sum_list xs) = sum_list (map real xs)"
  by (induction xs) simp_all

lemma sum_shares:
  assumes "0 < sum_list C"
  shows "sum_list (map (\<lambda>c. real c / real (sum_list C) * real D) C) = real D"
proof -
  have *: "sum_list (map (\<lambda>c. real c / N * real D) C) = real (sum_list C) / N * real D" for N
    by (induction C) (simp_all add: algebra_simps add_divide_distrib)
  have **: "N \<noteq> 0 \<Longrightarrow> N / N * d = d" for N d :: real
    by simp
  from assms have "sum_list C \<noteq> 0" by linarith
  then have "real (sum_list C) \<noteq> 0" by (simp only: of_nat_eq_0_iff not_False_eq_True)
  from **[OF this] *[of "real (sum_list C)"] show ?thesis by (simp only:)
qed

lemma sum_floor_le:
  assumes "\<forall>x\<in>set xs. 0 \<le> x"
  shows "real (sum_list (map (\<lambda>x. nat \<lfloor>x\<rfloor>) xs)) \<le> sum_list xs"
  using assms
proof (induction xs)
  case Nil
  show ?case by simp
next
  case (Cons x xs)
  then have "real (nat \<lfloor>x\<rfloor>) \<le> x" by simp
  with Cons show ?case by simp
qed

lemma sum_frac_less:
  assumes "\<forall>x\<in>set xs. 0 \<le> x" "xs \<noteq> []"
  shows "sum_list xs - real (sum_list (map (\<lambda>x. nat \<lfloor>x\<rfloor>) xs)) < real (length xs)"
  using assms
proof (induction xs)
  case Nil
  then show ?case by simp
next
  case (Cons x xs)
  from Cons.prems have x: "0 \<le> x" by simp
  then have fx: "x - real (nat \<lfloor>x\<rfloor>) < 1" by (simp add: of_nat_nat) linarith
  show ?case
  proof (cases "xs = []")
    case True
    with fx show ?thesis by simp
  next
    case False
    with Cons have "sum_list xs - real (sum_list (map (\<lambda>x. nat \<lfloor>x\<rfloor>) xs)) < real (length xs)"
      by simp
    with fx show ?thesis by simp
  qed
qed

lemma todo_all: "todo R (rev (sort (remdups R))) = length R"
proof -
  have "filter (\<lambda>i. R ! i \<in> set (rev (sort (remdups R)))) [0..<length R] = [0..<length R]"
    by (rule filter_True) simp
  then show ?thesis by (simp add: todo_def)
qed

lemma approximate_mode_props:
  assumes "pick_ok pick" "0 < sum_list C"
  shows "length (approximate_mode pick C D) = length C"
    and "\<forall>k<length C. approximate_mode pick C D ! k = nat \<lfloor>share C D k\<rfloor> \<or>
           approximate_mode pick C D ! k = nat \<lfloor>share C D k\<rfloor> + 1"
    and "sum_list (approximate_mode pick C D) = D"
proof -
  let ?cont = "map (\<lambda>c. real c / real (sum_list C) * real D) C"
  let ?fl = "map (\<lambda>x. nat \<lfloor>x\<rfloor>) ?cont"
  let ?need = "D - sum_list ?fl"
  let ?R = "map (\<lambda>x. x - real (nat \<lfloor>x\<rfloor>)) ?cont"
  let ?vs = "rev (sort (remdups ?R))"
  have ne: "C \<noteq> []" using assms(2) by auto
  have nonneg: "\<forall>x\<in>set ?cont. 0 \<le> x" by auto
  have sc: "sum_list ?cont = real D" by (rule sum_shares[OF assms(2)])
  have le: "sum_list ?fl \<le> D"
    using sum_floor_le[OF nonneg] sc by simp
  have "real D - real (sum_list ?fl) < real (length ?cont)"
    using sum_frac_less[OF nonneg] ne sc by simp
  then have need_le: "?need \<le> length C" using le by simp
  have flk: "?fl ! k = nat \<lfloor>share C D k\<rfloor>" if "k < length C" for k
    using that by (simp add: share_def)
  have dv: "distinct ?vs" by simp
  have lf: "length ?fl = length ?R" by simp
  note L = add_loop_props[OF assms(1) dv lf, of ?need]
  have td: "todo ?R ?vs = length C" using todo_all[of ?R] by simp
  show "length (approximate_mode pick C D) = length C"
    using L unfolding approximate_mode_def Let_def by simp
  show "\<forall>k<length C. approximate_mode pick C D ! k = nat \<lfloor>share C D k\<rfloor> \<or>
           approximate_mode pick C D ! k = nat \<lfloor>share C D k\<rfloor> + 1"
  proof (intro allI impI)
    fix k assume k: "k < length C"
    show "approximate_mode pick C D ! k = nat \<lfloor>share C D k\<rfloor> \<or>
           approximate_mode pick C D ! k = nat \<lfloor>share C D k\<rfloor> + 1"
    proof (cases "0 < ?need")
      case True
      then have "approximate_mode pick C D = add_loop pick ?R ?vs ?fl ?need"
        unfolding approximate_mode_def Let_def by simp
      moreover from L k have "add_loop pick ?R ?vs ?fl ?need ! k = ?fl ! k \<or>
          add_loop pick ?R ?vs ?fl ?need ! k = ?fl ! k + 1" by auto
      ultimately show ?thesis using flk[OF k] by simp
    next
      case False
      then have "approximate_mode pick C D = ?fl"
        unfolding approximate_mode_def Let_def by simp
      then show ?thesis using flk[OF k] by simp
    qed
  qed
  show "sum_list (approximate_mode pick C D) = D"
  proof (cases "0 < ?need")
    case True
    then have "approximate_mode pick C D = add_loop pick ?R ?vs ?fl ?need"
      unfolding approximate_mode_def Let_def by simp
    moreover from L have "sum_list (add_loop pick ?R ?vs ?fl ?need) =
        sum_list ?fl + min ?need (todo ?R ?vs)" by blast
    ultimately show ?thesis using td need_le le by simp
  next
    case False
    then have "approximate_mode pick C D = ?fl"
      unfolding approximate_mode_def Let_def by simp
    with False le show ?thesis by simp
  qed
qed


lemma set_non_null: "set (non_null ys) = {x. Some x \<in> set ys}"
proof (induction ys)
  case Nil
  show ?case by simp
next
  case (Cons a ys)
  then show ?case by (cases a) auto
qed

lemma set_classes_of: "set (classes_of ys) = set ys"
proof -
  have "Some ` {x. Some x \<in> set ys} \<union> (if None \<in> set ys then {None} else {}) = set ys"
  proof (intro set_eqI iffI)
    fix v assume "v \<in> Some ` {x. Some x \<in> set ys} \<union> (if None \<in> set ys then {None} else {})"
    then show "v \<in> set ys" by (auto split: if_splits)
  next
    fix v assume h: "v \<in> set ys"
    show "v \<in> Some ` {x. Some x \<in> set ys} \<union> (if None \<in> set ys then {None} else {})"
    proof (cases v)
      case None
      with h show ?thesis by simp
    next
      case (Some a)
      with h show ?thesis by auto
    qed
  qed
  moreover have "set (classes_of ys) =
      Some ` {x. Some x \<in> set ys} \<union> (if None \<in> set ys then {None} else {})"
    by (auto simp: classes_of_def set_non_null)
  ultimately show ?thesis by (simp only:)
qed

lemma distinct_classes_of: "distinct (classes_of ys)"
  by (auto simp: classes_of_def distinct_map)

lemma unique_inverse_num:
  "unique_inverse (NumCol ys) = (length (classes_of ys), map (index_of (classes_of ys)) ys)"
  by (simp add: unique_inverse_def classes_of_def Let_def)

lemma index_of_less: "x \<in> set cs \<Longrightarrow> index_of cs x < length cs"
  by (induction cs) auto

lemma nth_index_of: "x \<in> set cs \<Longrightarrow> cs ! index_of cs x = x"
  by (induction cs) auto

lemma index_of_nth: "distinct cs \<Longrightarrow> k < length cs \<Longrightarrow> index_of cs (cs ! k) = k"
proof (induction cs arbitrary: k)
  case Nil
  then show ?case by simp
next
  case (Cons c cs)
  then show ?case by (cases k) auto
qed

lemma index_of_eq_iff:
  assumes "distinct cs" "x \<in> set cs" "k < length cs"
  shows "index_of cs x = k \<longleftrightarrow> x = cs ! k"
  using assms nth_index_of index_of_nth by metis

lemma length_classes_of: "length (classes_of ys) = card (set ys)"
  using distinct_card[OF distinct_classes_of, of ys] by (simp add: set_classes_of)

lemma count_list_filter: "count_list l k = length (filter (\<lambda>x. x = k) l)"
  by (induction l) auto

lemma length_filter_nth:
  "length (filter (\<lambda>i. P (l ! i)) [0..<length l]) = length (filter P l)"
proof -
  have "filter P l = filter P (map (\<lambda>i. l ! i) [0..<length l])" by (simp add: map_nth)
  also have "\<dots> = map (\<lambda>i. l ! i) (filter (\<lambda>i. P (l ! i)) [0..<length l])"
    by (simp add: filter_map comp_def)
  finally show ?thesis by (metis length_map)
qed

lemma length_class_indices:
  "length (filter (\<lambda>i. l ! i = k) [0..<length l]) = count_list l k"
  using length_filter_nth[of "\<lambda>x. x = k" l] by (simp add: count_list_filter)

lemma sum_count_list:
  assumes "\<forall>x\<in>set l. x < m"
  shows "sum_list (map (count_list l) [0..<m]) = length l"
  using assms
proof (induction l)
  case Nil
  show ?case by simp
next
  case (Cons x l)
  have "map (count_list (x # l)) [0..<m] =
        map (\<lambda>k. count_list l k + (if k \<in> set [x] then 1 else 0)) [0..<m]"
    by auto
  then have "sum_list (map (count_list (x # l)) [0..<m]) =
        sum_list (map (count_list l) [0..<m]) +
        sum_list (map (\<lambda>k. if k \<in> set [x] then 1 else 0) [0..<m])"
    by (simp only: sum_list_addf)
  also have "sum_list (map (\<lambda>k. if k \<in> set [x] then 1 else 0) [0..<m]) = length [x]"
    using Cons.prems by (intro sum_list_indicator) auto
  finally show ?case using Cons by simp
qed

lemma count_class:
  assumes "k < length (classes_of ys)"
  shows "count_list (map (index_of (classes_of ys)) ys) k = count_list ys (classes_of ys ! k)"
proof -
  have "length (filter (\<lambda>x. index_of (classes_of ys) x = k) zs) =
        length (filter (\<lambda>x. x = classes_of ys ! k) zs)" if "set zs \<subseteq> set ys" for zs
    using that
  proof (induction zs)
    case Nil
    show ?case by simp
  next
    case (Cons z zs)
    then have "z \<in> set (classes_of ys)" by (simp add: set_classes_of)
    from index_of_eq_iff[OF distinct_classes_of this assms] Cons show ?case by simp
  qed
  from this[of ys] show ?thesis by (simp add: count_list_filter filter_map comp_def)
qed

lemma mset_classes:
  "sum_list (map (\<lambda>k. filter_mset (\<lambda>i. f i = k) M) [0..<m]) = filter_mset (\<lambda>i. f i < m) M"
proof (induction m)
  case 0
  show ?case by simp
next
  case (Suc m)
  have "filter_mset (\<lambda>i. f i < Suc m) M =
        filter_mset (\<lambda>i. f i < m) M + filter_mset (\<lambda>i. f i = m) M"
    by (induction M) auto
  with Suc show ?case by simp
qed

lemma mset_class_indices:
  assumes "\<forall>i<length yi. yi ! i < m"
  shows "sum_list (map (\<lambda>k. mset (filter (\<lambda>i. yi ! i = k) [0..<length yi])) [0..<m]) =
         mset [0..<length yi]"
proof -
  have "sum_list (map (\<lambda>k. mset (filter (\<lambda>i. yi ! i = k) [0..<length yi])) [0..<m]) =
        filter_mset (\<lambda>i. yi ! i < m) (mset [0..<length yi])"
    using mset_classes[of "\<lambda>i. yi ! i" "mset [0..<length yi]" m] by simp
  also have "\<dots> = mset (filter (\<lambda>i. yi ! i < m) [0..<length yi])" by simp
  also have "filter (\<lambda>i. yi ! i < m) [0..<length yi] = [0..<length yi]"
    using assms by (intro filter_True) simp
  finally show ?thesis .
qed

lemma count_concat_classes:
  assumes "\<forall>k<m. \<forall>i\<in>set (g k). f i = k" "k0 < m"
  shows "length (filter (\<lambda>i. f i = k0) (concat (map g [0..<m]))) = length (g k0)"
  using assms
proof (induction m)
  case 0
  then show ?case by simp
next
  case (Suc m)
  have last: "\<forall>i\<in>set (g m). f i = m" using Suc.prems(1) by simp
  show ?case
  proof (cases "k0 = m")
    case True
    have "\<forall>k<m. \<forall>i\<in>set (g k). f i \<noteq> m"
    proof (intro allI impI ballI)
      fix k i assume "k < m" "i \<in> set (g k)"
      with Suc.prems(1) have "f i = k" by simp
      with \<open>k < m\<close> show "f i \<noteq> m" by simp
    qed
    then have "filter (\<lambda>i. f i = m) (concat (map g [0..<m])) = []"
      by (auto simp: filter_empty_conv)
    moreover have "filter (\<lambda>i. f i = m) (g m) = g m" using last by (intro filter_True) simp
    ultimately show ?thesis using True by simp
  next
    case False
    with Suc.prems(2) have k0: "k0 < m" by simp
    from last False have "filter (\<lambda>i. f i = k0) (g m) = []"
      by (auto simp: filter_empty_conv)
    moreover have "length (filter (\<lambda>i. f i = k0) (concat (map g [0..<m]))) = length (g k0)"
      using Suc.IH[OF _ k0] Suc.prems(1) by simp
    ultimately show ?thesis by simp
  qed
qed

lemma split_lists:
  assumes cls: "\<forall>i<length yi. yi ! i < m"
    and perm: "\<forall>k<m. mset (P k) = mset (filter (\<lambda>i. yi ! i = k) [0..<length yi])"
  shows "mset (concat (map (\<lambda>k. take (a k) (P k)) [0..<m])) +
         mset (concat (map (\<lambda>k. drop (a k) (P k)) [0..<m])) = mset [0..<length yi]"
    and "\<forall>k<m. length (filter (\<lambda>i. yi ! i = k) (concat (map (\<lambda>k. take (a k) (P k)) [0..<m]))) =
           length (take (a k) (P k))"
    and "\<forall>k<m. length (filter (\<lambda>i. yi ! i = k) (concat (map (\<lambda>k. drop (a k) (P k)) [0..<m]))) =
           length (drop (a k) (P k))"
proof -
  have el: "\<forall>k<m. \<forall>i\<in>set (P k). yi ! i = k"
  proof (intro allI impI ballI)
    fix k i assume k: "k < m" and i: "i \<in> set (P k)"
    from perm k have "set (P k) = set (filter (\<lambda>i. yi ! i = k) [0..<length yi])"
      by (metis set_mset_mset)
    with i show "yi ! i = k" by simp
  qed
  have "mset (concat (map (\<lambda>k. take (a k) (P k)) [0..<m])) +
        mset (concat (map (\<lambda>k. drop (a k) (P k)) [0..<m])) =
        sum_list (map (\<lambda>k. mset (take (a k) (P k)) + mset (drop (a k) (P k))) [0..<m])"
    by (simp add: mset_concat comp_def sum_list_addf)
  also have "\<dots> = sum_list (map (\<lambda>k. mset (P k)) [0..<m])"
    by (simp flip: mset_append)
  also have "\<dots> = sum_list (map (\<lambda>k. mset (filter (\<lambda>i. yi ! i = k) [0..<length yi])) [0..<m])"
    using perm by (intro arg_cong[where f=sum_list] map_cong) simp_all
  also have "\<dots> = mset [0..<length yi]" by (rule mset_class_indices[OF cls])
  finally show "mset (concat (map (\<lambda>k. take (a k) (P k)) [0..<m])) +
         mset (concat (map (\<lambda>k. drop (a k) (P k)) [0..<m])) = mset [0..<length yi]" .
  have t: "\<forall>k<m. \<forall>i\<in>set (take (a k) (P k)). yi ! i = k"
    using el by (meson in_set_takeD)
  have d: "\<forall>k<m. \<forall>i\<in>set (drop (a k) (P k)). yi ! i = k"
    using el by (meson in_set_dropD)
  show "\<forall>k<m. length (filter (\<lambda>i. yi ! i = k) (concat (map (\<lambda>k. take (a k) (P k)) [0..<m]))) =
           length (take (a k) (P k))"
    using count_concat_classes[of m "\<lambda>k. take (a k) (P k)" "\<lambda>i. yi ! i", OF t] by blast
  show "\<forall>k<m. length (filter (\<lambda>i. yi ! i = k) (concat (map (\<lambda>k. drop (a k) (P k)) [0..<m]))) =
           length (drop (a k) (P k))"
    using count_concat_classes[of m "\<lambda>k. drop (a k) (P k)" "\<lambda>i. yi ! i", OF d] by blast
qed

lemma mset_take_clip:
  assumes "mset p = mset [0..<length xs]"
  shows "mset (take_clip xs p) = mset xs"
proof -
  from assms have "set p = {0..<length xs}" by (metis set_mset_mset set_upt)
  then have "take_clip xs p = map (\<lambda>j. xs ! j) p"
    unfolding take_clip_def by (intro map_cong) auto
  then have "mset (take_clip xs p) = image_mset (\<lambda>j. xs ! j) (mset p)" by simp
  also have "\<dots> = mset (map (\<lambda>j. xs ! j) [0..<length xs])" by (simp add: assms)
  finally show ?thesis by (simp add: map_nth)
qed

lemma length_filter_mset_eq:
  "mset xs = mset ys \<Longrightarrow> length (filter P xs) = length (filter P ys)"
  by (metis mset_filter size_mset)

lemma pick_ok_choice: "valid_rng rng \<Longrightarrow> pick_ok (choice rng j)"
  unfolding valid_rng_def pick_ok_def by blast

lemma sum_list_diff_nth:
  assumes "length a = m" "length C = m" "\<forall>k<m. a ! k \<le> C ! k"
  shows "sum_list (map (\<lambda>k. C ! k - a ! k) [0..<m]) + sum_list a = sum_list (C::nat list)"
proof -
  have "sum_list (map (\<lambda>k. C ! k - a ! k) [0..<m]) + sum_list (map (\<lambda>k. a ! k) [0..<m]) =
        sum_list (map (\<lambda>k. (C ! k - a ! k) + a ! k) [0..<m])"
    by (simp only: sum_list_addf)
  also have "map (\<lambda>k. (C ! k - a ! k) + a ! k) [0..<m] = map (\<lambda>k. C ! k) [0..<m]"
    using assms(3) by (intro map_cong) simp_all
  finally have *: "sum_list (map (\<lambda>k. C ! k - a ! k) [0..<m]) + sum_list (map (\<lambda>k. a ! k) [0..<m]) =
        sum_list (map (\<lambda>k. C ! k) [0..<m])" .
  have "map (\<lambda>k. a ! k) [0..<m] = a" unfolding assms(1)[symmetric] by (rule map_nth)
  moreover have "map (\<lambda>k. C ! k) [0..<m] = C" unfolding assms(2)[symmetric] by (rule map_nth)
  ultimately show ?thesis using * by simp
qed

lemma approximate_mode_exact:
  assumes "sum_list C = D" "0 < D"
  shows "approximate_mode pick C D = C"
proof -
  from assms have nz: "real (sum_list C) \<noteq> 0" by simp
  have "real c / real (sum_list C) * real D = real c" for c
    using assms by simp
  then have cont: "map (\<lambda>c. real c / real (sum_list C) * real D) C = map real C" by simp
  have fl: "map (\<lambda>x. nat \<lfloor>x\<rfloor>) (map real C) = C"
    by (induction C) simp_all
  show ?thesis
    unfolding approximate_mode_def Let_def cont fl using assms(1) by simp
qed

lemma floor_share_less:
  assumes "0 < c" "D < N" "c \<le> N"
  shows "nat \<lfloor>real c / real N * real D\<rfloor> + 1 \<le> c"
proof -
  from assms have "real c * real D < real c * real N" by simp
  moreover from assms have N: "0 < real N" by simp
  ultimately have "real c / real N * real D < real c"
    by (simp add: field_simps)
  then have "\<lfloor>real c / real N * real D\<rfloor> < int c" by (simp add: floor_less_iff)
  moreover have "0 \<le> \<lfloor>real c / real N * real D\<rfloor>" by simp
  ultimately have "nat \<lfloor>real c / real N * real D\<rfloor> < c" by (simp add: nat_less_iff)
  then show ?thesis by simp
qed

lemma stratified_split_ok:
  assumes rng: "valid_rng rng"
    and nonan: "None \<notin> set ys"
    and two: "\<forall>v\<in>set ys. 2 \<le> count_list ys v"
    and mtr: "card (set ys) \<le> n_train" and mte: "card (set ys) \<le> n_test"
    and sz: "n_train + n_test = length ys" and pos: "0 < n_test"
  shows "\<exists>train test. stratified_shuffle_split rng (NumCol ys) n_train n_test = Inr (train, test) \<and>
      mset train + mset test = mset [0..<length ys] \<and>
      length train = n_train \<and> length test = n_test \<and>
      (\<forall>v\<in>set ys. \<exists>a.
         (a = nat \<lfloor>real (count_list ys v) / real (length ys) * real n_train\<rfloor> \<or>
          a = nat \<lfloor>real (count_list ys v) / real (length ys) * real n_train\<rfloor> + 1) \<and>
         a \<le> count_list ys v \<and>
         length (filter (\<lambda>i. ys ! i = v) train) = a \<and>
         length (filter (\<lambda>i. ys ! i = v) test) = count_list ys v - a)"
proof -
  define cls where "cls = classes_of ys"
  define m where "m = length cls"
  define yi where "yi = map (index_of cls) ys"
  define C where "C = map (\<lambda>k. count_list yi k) [0..<m]"
  define CI where "CI = map (\<lambda>k. filter (\<lambda>i. yi ! i = k) [0..<length yi]) [0..<m]"
  define a where "a = approximate_mode (choice rng 0) C n_train"
  define rem where "rem = map (\<lambda>k. C ! k - a ! k) [0..<m]"
  define t where "t = approximate_mode (choice rng 1) rem n_test"
  define P where "P = map (\<lambda>k. take_clip (CI ! k) (permutation rng k [0..<C ! k])) [0..<m]"
  define train0 where "train0 = concat (map (\<lambda>k. take (a ! k) (P ! k)) [0..<m])"
  define test0 where "test0 = concat (map (\<lambda>k. take (t ! k) (drop (a ! k) (P ! k))) [0..<m])"
  define train where "train = permutation rng m train0"
  define test where "test = permutation rng (m + 1) test0"
  let ?n = "length ys"
  have scls: "set cls = set ys" and dcls: "distinct cls"
    by (simp_all add: cls_def set_classes_of distinct_classes_of)
  have mcard: "m = card (set ys)" by (simp add: m_def cls_def length_classes_of)
  have lenyi: "length yi = ?n" by (simp add: yi_def)
  have yik: "yi ! i = index_of cls (ys ! i)" if "i < ?n" for i
    using that by (simp add: yi_def)
  have yi_lt: "\<forall>i<length yi. yi ! i < m"
    using yik scls lenyi by (simp add: m_def index_of_less)
  have yi_set: "\<forall>x\<in>set yi. x < m"
    using yi_lt by (auto simp: in_set_conv_nth)
  have lenC: "length C = m" by (simp add: C_def)
  have Ck: "C ! k = count_list ys (cls ! k)" if "k < m" for k
    using that count_class[of k ys] by (simp add: C_def yi_def cls_def m_def)
  have clsk: "cls ! k \<in> set ys" if "k < m" for k
    using that scls nth_mem[of k cls] by (simp add: m_def)
  have C2: "2 \<le> C ! k" if "k < m" for k
    using Ck[OF that] clsk[OF that] two by simp
  have c1: "\<forall>c\<in>set C. 2 \<le> c"
    using C2 lenC by (auto simp: in_set_conv_nth)
  have sumC: "sum_list C = ?n"
    using sum_count_list[OF yi_set] lenyi by (simp add: C_def)
  have npos: "0 < ?n" using sz pos by linarith
  have ltn: "n_train < ?n" using sz pos by linarith
  have run: "stratified_shuffle_split rng (NumCol ys) n_train n_test = Inr (train, test)"
  proof -
    have n1: "\<not> (\<exists>c\<in>set C. c < 2)" using c1 by auto
    have n2: "\<not> n_train < m" "\<not> n_test < m" using mtr mte mcard by auto
    have n0: "\<not> has_nan (NumCol ys)" using nonan by (simp add: has_nan_def)
    show ?thesis
      unfolding stratified_shuffle_split_def unique_inverse_num Let_def fst_conv snd_conv
      unfolding cls_def[symmetric]
      unfolding m_def[symmetric] yi_def[symmetric]
      unfolding C_def[symmetric]
      unfolding CI_def[symmetric] a_def[symmetric]
      unfolding rem_def[symmetric]
      unfolding t_def[symmetric] P_def[symmetric]
      unfolding train0_def[symmetric] test0_def[symmetric]
      unfolding train_def[symmetric] test_def[symmetric]
      using n0 n1 n2 by (simp only: if_False)
  qed
  have pos_sum: "0 < sum_list C" using sumC npos by simp
  note ap = approximate_mode_props[OF pick_ok_choice[OF rng, of 0] pos_sum, of n_train,
      folded a_def]
  have la: "length a = m" using ap(1) lenC by simp
  have ak: "a ! k = nat \<lfloor>share C n_train k\<rfloor> \<or> a ! k = nat \<lfloor>share C n_train k\<rfloor> + 1"
    if "k < m" for k using ap(2) that lenC by simp
  have suma: "sum_list a = n_train" by (rule ap(3))
  have shk: "share C n_train k = real (count_list ys (cls ! k)) / real ?n * real n_train"
    if "k < m" for k
    by (simp add: share_def sumC Ck[OF that])
  have ale: "a ! k \<le> C ! k" if "k < m" for k
  proof -
    have "C ! k \<le> sum_list C"
      using that lenC by (intro member_le_sum_list) simp_all
    then have "C ! k \<le> ?n" by (simp add: sumC)
    from floor_share_less[OF _ ltn this] C2[OF that]
    have "nat \<lfloor>real (C ! k) / real ?n * real n_train\<rfloor> + 1 \<le> C ! k" by simp
    then have "nat \<lfloor>share C n_train k\<rfloor> + 1 \<le> C ! k" by (simp add: share_def sumC)
    with ak[OF that] show ?thesis by linarith
  qed
  have lrem: "length rem = m" by (simp add: rem_def)
  have "sum_list rem + sum_list a = sum_list C"
    unfolding rem_def using sum_list_diff_nth[OF la lenC] ale by simp
  then have sumrem: "sum_list rem = n_test" using suma sumC sz by simp
  have t_eq: "t = rem" unfolding t_def by (rule approximate_mode_exact[OF sumrem pos])
  have tk: "t ! k = C ! k - a ! k" if "k < m" for k
    using that by (simp add: t_eq rem_def)
  have Pm: "mset (P ! k) = mset (filter (\<lambda>i. yi ! i = k) [0..<length yi])"
    and Pl: "length (P ! k) = C ! k" if "k < m" for k
  proof -
    have ci: "CI ! k = filter (\<lambda>i. yi ! i = k) [0..<length yi]"
      using that by (simp add: CI_def)
    have lci: "length (CI ! k) = C ! k"
      unfolding ci using that by (simp add: C_def length_class_indices)
    have pk: "P ! k = take_clip (CI ! k) (permutation rng k [0..<C ! k])"
      using that by (simp add: P_def)
    have "mset (permutation rng k [0..<C ! k]) = mset [0..<length (CI ! k)]"
      using rng by (simp add: valid_rng_def lci)
    from mset_take_clip[OF this] show "mset (P ! k) = mset (filter (\<lambda>i. yi ! i = k) [0..<length yi])"
      by (simp add: pk ci)
    then have "length (P ! k) = length (filter (\<lambda>i. yi ! i = k) [0..<length yi])"
      by (metis size_mset)
    then show "length (P ! k) = C ! k" using lci ci by simp
  qed
  have test0_eq: "test0 = concat (map (\<lambda>k. drop (a ! k) (P ! k)) [0..<m])"
    unfolding test0_def
  proof (intro arg_cong[where f=concat] map_cong refl)
    fix k assume "k \<in> set [0..<m]"
    then have k: "k < m" by simp
    show "take (t ! k) (drop (a ! k) (P ! k)) = drop (a ! k) (P ! k)"
      using tk[OF k] Pl[OF k] by simp
  qed
  have perm: "\<forall>k<m. mset (P ! k) = mset (filter (\<lambda>i. yi ! i = k) [0..<length yi])"
    using Pm by blast
  note sl = split_lists[OF yi_lt perm, of "\<lambda>k. a ! k", folded train0_def test0_eq]
  have mtrain: "mset train = mset train0" and mtest: "mset test = mset test0"
    using rng by (simp_all add: train_def test_def valid_rng_def)
  have part: "mset train + mset test = mset [0..<?n]"
    using sl(1) mtrain mtest lenyi by simp
  have "length train0 = sum_list (map (\<lambda>k. length (take (a ! k) (P ! k))) [0..<m])"
    by (simp add: train0_def length_concat comp_def)
  also have "map (\<lambda>k. length (take (a ! k) (P ! k))) [0..<m] = map (\<lambda>k. a ! k) [0..<m]"
    using ale Pl by (intro map_cong) simp_all
  also have "map (\<lambda>k. a ! k) [0..<m] = a" unfolding la[symmetric] by (rule map_nth)
  finally have "length train0 = n_train" using suma by simp
  then have ltrain: "length train = n_train" using mtrain by (metis size_mset)
  have "size (mset train + mset test) = ?n" unfolding part by simp
  then have ltest: "length test = n_test" using ltrain sz by simp
  have in_train: "\<forall>i\<in>set train. i < ?n" and in_test: "\<forall>i\<in>set test. i < ?n"
  proof -
    have "set_mset (mset train + mset test) = {0..<?n}" unfolding part by simp
    then show "\<forall>i\<in>set train. i < ?n" "\<forall>i\<in>set test. i < ?n" by auto
  qed
  have cnt: "\<exists>b.
         (b = nat \<lfloor>real (count_list ys v) / real ?n * real n_train\<rfloor> \<or>
          b = nat \<lfloor>real (count_list ys v) / real ?n * real n_train\<rfloor> + 1) \<and>
         b \<le> count_list ys v \<and>
         length (filter (\<lambda>i. ys ! i = v) train) = b \<and>
         length (filter (\<lambda>i. ys ! i = v) test) = count_list ys v - b"
    if v: "v \<in> set ys" for v
  proof -
    define k where "k = index_of cls v"
    from v scls have vc: "v \<in> set cls" by simp
    have k: "k < m" unfolding k_def m_def by (rule index_of_less[OF vc])
    have kv: "cls ! k = v" unfolding k_def by (rule nth_index_of[OF vc])
    have same: "(ys ! i = v) \<longleftrightarrow> (yi ! i = k)" if "i < ?n" for i
    proof -
      from that scls have "ys ! i \<in> set cls" by simp
      from index_of_eq_iff[OF dcls this k[unfolded m_def]] kv yik[OF that]
      show ?thesis by auto
    qed
    have f1: "filter (\<lambda>i. ys ! i = v) train = filter (\<lambda>i. yi ! i = k) train"
      using in_train same by (intro filter_cong refl) simp
    have f2: "filter (\<lambda>i. ys ! i = v) test = filter (\<lambda>i. yi ! i = k) test"
      using in_test same by (intro filter_cong refl) simp
    have "length (filter (\<lambda>i. yi ! i = k) train) = length (filter (\<lambda>i. yi ! i = k) train0)"
      by (rule length_filter_mset_eq[OF mtrain])
    also have "\<dots> = length (take (a ! k) (P ! k))" using sl(2) k by blast
    also have "\<dots> = a ! k" using ale[OF k] Pl[OF k] by simp
    finally have r1: "length (filter (\<lambda>i. ys ! i = v) train) = a ! k" unfolding f1 .
    have "length (filter (\<lambda>i. yi ! i = k) test) = length (filter (\<lambda>i. yi ! i = k) test0)"
      by (rule length_filter_mset_eq[OF mtest])
    also have "\<dots> = length (drop (a ! k) (P ! k))" using sl(3) k by blast
    also have "\<dots> = C ! k - a ! k" using Pl[OF k] by simp
    finally have r2: "length (filter (\<lambda>i. ys ! i = v) test) = count_list ys v - a ! k"
      unfolding f2 using Ck[OF k] kv by simp
    have r3: "a ! k \<le> count_list ys v" using ale[OF k] Ck[OF k] kv by simp
    have r4: "a ! k = nat \<lfloor>real (count_list ys v) / real ?n * real n_train\<rfloor> \<or>
          a ! k = nat \<lfloor>real (count_list ys v) / real ?n * real n_train\<rfloor> + 1"
      using ak[OF k] shk[OF k] kv by simp
    from r1 r2 r3 r4 show ?thesis by blast
  qed
  from run part ltrain ltest cnt show ?thesis by blast
qed


lemma near_floor:
  assumes "a = nat \<lfloor>x\<rfloor> \<or> a = nat \<lfloor>x\<rfloor> + 1" "0 \<le> x"
  shows "\<bar>real a - x\<bar> \<le> 1"
proof -
  from assms(2) have r: "real (nat \<lfloor>x\<rfloor>) = of_int \<lfloor>x\<rfloor>" by simp
  have f1: "of_int \<lfloor>x\<rfloor> \<le> x" and f2: "x < of_int \<lfloor>x\<rfloor> + 1" by linarith+
  from assms(1) show ?thesis
  proof
    assume "a = nat \<lfloor>x\<rfloor>"
    then have "real a = of_int \<lfloor>x\<rfloor>" using r by simp
    with f1 f2 show ?thesis by linarith
  next
    assume "a = nat \<lfloor>x\<rfloor> + 1"
    then have "real a = of_int \<lfloor>x\<rfloor> + 1" using r by simp
    with f1 f2 show ?thesis by linarith
  qed
qed

lemma validate_n_records: "validate_shuffle_split n_records = Inr (4000, 1000)"
  by (simp add: validate_shuffle_split_def test_size_def n_records_def)

lemma count_list_map_nth:
  "count_list (map (\<lambda>i. ys ! i) idx) v = length (filter (\<lambda>i. ys ! i = v) idx)"
  by (simp add: count_list_filter filter_map comp_def)

lemma count_list_0: "v \<notin> set xs \<Longrightarrow> count_list xs v = 0"
  by (induction xs) auto

lemma rates_5000:
  assumes a: "a = nat \<lfloor>real c / real n_records * real 4000\<rfloor> \<or>
              a = nat \<lfloor>real c / real n_records * real 4000\<rfloor> + 1"
    and le: "a \<le> c"
  shows "\<bar>real a / 4000 - real c / real n_records\<bar> \<le> 2 / 100"
    and "\<bar>real (c - a) / 1000 - real c / real n_records\<bar> \<le> 2 / 100"
proof -
  let ?x = "real c / real n_records * real 4000"
  have nr: "real n_records = 5000" by (simp add: n_records_def)
  have x: "?x = real c * 4 / 5" by (simp add: nr)
  have "0 \<le> ?x" by simp
  from near_floor[OF a this] have b: "\<bar>real a - real c * 4 / 5\<bar> \<le> 1" unfolding x .
  have ca: "real (c - a) = real c - real a" using le by (simp add: of_nat_diff)
  from b show "\<bar>real a / 4000 - real c / real n_records\<bar> \<le> 2 / 100"
    unfolding nr by linarith
  have e: "(real c - real a) / 1000 - real c / 5000 = (real c * 4 / 5 - real a) / 1000"
    by (simp add: field_simps)
  from b have "\<bar>real c * 4 / 5 - real a\<bar> \<le> 1" by (simp add: abs_minus_commute)
  then have "\<bar>(real c * 4 / 5 - real a) / 1000\<bar> \<le> 2 / 100" by simp
  then show "\<bar>real (c - a) / 1000 - real c / real n_records\<bar> \<le> 2 / 100"
    unfolding nr ca e .
qed

lemma split_cell_rates:
  assumes rng: "valid_rng rng"
    and nonan: "None \<notin> set ys"
    and id: "data ''CustomerID'' \<noteq> None"
    and churn: "data ''Churn'' = Some (NumCol ys)"
    and len: "length ys = n_records"
    and two: "\<forall>v\<in>set ys. 2 \<le> count_list ys v"
    and few: "card (set ys) \<le> 1000"
  shows "\<exists>vars train test. split_cell rng data = Inr vars \<and>
      nb_X vars = data |` (- {''CustomerID'', ''Churn''}) \<and> nb_y vars = NumCol ys \<and>
      nb_X_train vars = iloc (nb_X vars) train \<and> nb_X_test vars = iloc (nb_X vars) test \<and>
      nb_y_train vars = NumCol (map (\<lambda>i. ys ! i) train) \<and>
      nb_y_test vars = NumCol (map (\<lambda>i. ys ! i) test) \<and>
      mset train + mset test = mset [0..<n_records] \<and>
      length train = 4000 \<and> length test = 1000 \<and>
      (\<forall>v. \<bar>class_rate v (map (\<lambda>i. ys ! i) train) - class_rate v ys\<bar> \<le> 2 / 100 \<and>
           \<bar>class_rate v (map (\<lambda>i. ys ! i) test) - class_rate v ys\<bar> \<le> 2 / 100)"
proof -
  have sz: "4000 + 1000 = length ys" by (simp add: len n_records_def)
  have few': "card (set ys) \<le> 4000" using few by simp
  have pos: "0 < (1000::nat)" by simp
  from stratified_split_ok[OF rng nonan two few' few sz pos] obtain train test where
    run: "stratified_shuffle_split rng (NumCol ys) 4000 1000 = Inr (train, test)"
    and part: "mset train + mset test = mset [0..<length ys]"
    and lt: "length train = 4000" "length test = 1000"
    and cnt: "\<forall>v\<in>set ys. \<exists>a.
         (a = nat \<lfloor>real (count_list ys v) / real (length ys) * real 4000\<rfloor> \<or>
          a = nat \<lfloor>real (count_list ys v) / real (length ys) * real 4000\<rfloor> + 1) \<and>
         a \<le> count_list ys v \<and>
         length (filter (\<lambda>i. ys ! i = v) train) = a \<and>
         length (filter (\<lambda>i. ys ! i = v) test) = count_list ys v - a"
    by (elim exE conjE) (rule that, assumption+)
  let ?vars = "\<lparr>nb_X = data |` (- {''CustomerID'', ''Churn''}), nb_y = NumCol ys,
      nb_X_train = iloc (data |` (- {''CustomerID'', ''Churn''})) train,
      nb_X_test = iloc (data |` (- {''CustomerID'', ''Churn''})) test,
      nb_y_train = NumCol (map (\<lambda>i. ys ! i) train),
      nb_y_test = NumCol (map (\<lambda>i. ys ! i) test)\<rparr>"
  have cl: "col_length (NumCol ys) = n_records" by (simp add: col_length_def len)
  have dc: "drop_columns [''CustomerID'', ''Churn''] data = Inr (data |` (- {''CustomerID'', ''Churn''}))"
    using id churn by (simp add: drop_columns_def)
  have sc: "split_cell rng data = Inr ?vars"
    unfolding split_cell_def dc
    by (simp add: getcol_def churn train_test_split_def cl validate_n_records run iloc_col_def)
  have in_train: "\<forall>i\<in>set train. i < length ys" and in_test: "\<forall>i\<in>set test. i < length ys"
  proof -
    have "set_mset (mset train + mset test) = {0..<length ys}" unfolding part by simp
    then show "\<forall>i\<in>set train. i < length ys" "\<forall>i\<in>set test. i < length ys" by auto
  qed
  have rates: "\<bar>class_rate v (map (\<lambda>i. ys ! i) train) - class_rate v ys\<bar> \<le> 2 / 100 \<and>
           \<bar>class_rate v (map (\<lambda>i. ys ! i) test) - class_rate v ys\<bar> \<le> 2 / 100" for v
  proof (cases "v \<in> set ys")
    case True
    with cnt obtain a where
      a: "a = nat \<lfloor>real (count_list ys v) / real (length ys) * real 4000\<rfloor> \<or>
          a = nat \<lfloor>real (count_list ys v) / real (length ys) * real 4000\<rfloor> + 1"
      and le: "a \<le> count_list ys v"
      and tr: "length (filter (\<lambda>i. ys ! i = v) train) = a"
      and te: "length (filter (\<lambda>i. ys ! i = v) test) = count_list ys v - a"
      by blast
    from rates_5000[OF a[unfolded len] le] show ?thesis
      by (simp add: class_rate_def count_list_map_nth tr te lt len)
  next
    case False
    then have z: "count_list ys v = 0" by (rule count_list_0)
    have "filter (\<lambda>i. ys ! i = v) train = []"
      using in_train False by (auto simp: filter_empty_conv)
    moreover have "filter (\<lambda>i. ys ! i = v) test = []"
      using in_test False by (auto simp: filter_empty_conv)
    ultimately show ?thesis
      by (simp add: class_rate_def count_list_map_nth z)
  qed
  show ?thesis
    apply (rule exI[of _ ?vars], rule exI[of _ train], rule exI[of _ test])
    using sc part lt rates len by simp
qed



lemma valid_id_rng: "valid_rng id_rng"
  by (simp add: valid_rng_def id_rng_def set_take_subset)

lemma count_list_append: "count_list (xs @ ys) v = count_list xs v + count_list ys v"
  by (induction xs) auto

lemma count_list_replicate: "count_list (replicate n x) v = (if x = v then n else 0)"
  by (induction n) auto

lemma example_labels_facts:
  "length example_labels = n_records"
  "set example_labels = {Some 1, Some 0}"
  "count_list example_labels (Some 1) = 1000"
  "count_list example_labels (Some 0) = 4000"
  by (auto simp: example_labels_def n_records_def count_list_append count_list_replicate)


section \<open>The preprocessor on the generated table\<close>

lemma encode_loop_present:
  assumes "distinct cs" "\<forall>c\<in>set cs. data c \<noteq> None"
  shows "encode_loop cs data =
     Inr (\<lambda>c. if c \<in> set cs then map_option LabelEncoder_fit_transform (data c) else data c)"
  using assms
proof (induction cs arbitrary: data)
  case Nil
  show ?case by simp
next
  case (Cons c cs)
  from Cons.prems obtain col where col: "data c = Some col" by auto
  let ?d = "data(c \<mapsto> LabelEncoder_fit_transform col)"
  have e: "encode_col c data = Inr ?d" by (simp add: encode_col_def getcol_def col)
  have p: "\<forall>c'\<in>set cs. ?d c' \<noteq> None" using Cons.prems by auto
  from Cons.prems have d: "distinct cs" "c \<notin> set cs" by simp_all
  have "encode_loop (c # cs) data = encode_loop cs ?d" by (simp add: e)
  also have "\<dots> = Inr (\<lambda>c'. if c' \<in> set cs then map_option LabelEncoder_fit_transform (?d c')
      else ?d c')"
    by (rule Cons.IH[OF d(1) p])
  also have "(\<lambda>c'. if c' \<in> set cs then map_option LabelEncoder_fit_transform (?d c') else ?d c') =
      (\<lambda>c'. if c' \<in> set (c # cs) then map_option LabelEncoder_fit_transform (data c') else data c')"
    using d(2) col by (intro ext) auto
  finally show ?case .
qed

lemma col_names:
  "distinct categorical_cols"
  "''TotalCharges'' \<notin> set categorical_cols"
  "''CustomerID'' \<notin> set categorical_cols"
  "''CustomerID'' \<notin> set numeric_cols"
  "''Churn'' \<in> set categorical_cols"
  "''Churn'' \<notin> set numeric_cols"
  "''TotalCharges'' \<in> set numeric_cols"
  "set numeric_cols \<inter> set categorical_cols = {}"
  by (simp_all add: categorical_cols_def numeric_cols_def)

lemma impute_cell_numeric:
  assumes "raw ''TotalCharges'' = Some (NumCol tc)" "\<exists>i<length tc. tc ! i \<noteq> None"
  shows "impute_cell raw = Inr (raw(''TotalCharges'' \<mapsto>
     NumCol (map (\<lambda>x. case x of None \<Rightarrow> Some (mean (non_null tc)) | Some v \<Rightarrow> Some v) tc)))"
  using assms(1) impute_column[OF assms(2)] by (simp add: impute_cell_def getcol_def)

lemma preprocess_ok:
  assumes rng: "valid_rng rng"
    and tc: "raw ''TotalCharges'' = Some (NumCol tc)" and tcn: "\<exists>i<length tc. tc ! i \<noteq> None"
    and cat: "\<forall>c\<in>set categorical_cols. raw c \<noteq> None"
    and num: "\<forall>c\<in>set numeric_cols. \<exists>xs. raw c = Some (NumCol xs) \<and> xs \<noteq> []"
    and id: "raw ''CustomerID'' \<noteq> None"
    and churn: "raw ''Churn'' = Some col" and enc: "LabelEncoder_fit_transform col = NumCol ys"
    and len: "length ys = n_records"
    and two: "\<forall>v\<in>set ys. 2 \<le> count_list ys v"
    and few: "card (set ys) \<le> 1000"
  shows "\<exists>d1 d2 d3 vars train test.
      impute_cell raw = Inr d1 \<and> encode_cell d1 = Inr d2 \<and> scale_cell d2 = Inr d3 \<and>
      split_cell rng d3 = Inr vars \<and> preprocess rng raw = Inr vars \<and>
      (\<forall>c. c \<notin> set categorical_cols \<longrightarrow> c \<noteq> ''TotalCharges'' \<longrightarrow> d2 c = raw c) \<and>
      (\<forall>c\<in>set numeric_cols. \<exists>xs. d2 c = Some (NumCol xs) \<and> xs \<noteq> []) \<and>
      d3 ''Churn'' = Some (NumCol ys) \<and> nb_y vars = NumCol ys \<and>
      nb_X vars = d3 |` (- {''CustomerID'', ''Churn''}) \<and>
      nb_X_train vars = iloc (nb_X vars) train \<and> nb_X_test vars = iloc (nb_X vars) test \<and>
      nb_y_train vars = NumCol (map (\<lambda>i. ys ! i) train) \<and>
      nb_y_test vars = NumCol (map (\<lambda>i. ys ! i) test) \<and>
      mset train + mset test = mset [0..<n_records] \<and>
      length train = 4000 \<and> length test = 1000 \<and>
      (\<forall>v. \<bar>class_rate v (map (\<lambda>i. ys ! i) train) - class_rate v ys\<bar> \<le> 2 / 100 \<and>
           \<bar>class_rate v (map (\<lambda>i. ys ! i) test) - class_rate v ys\<bar> \<le> 2 / 100)"
proof -
  let ?imp = "map (\<lambda>x. case x of None \<Rightarrow> Some (mean (non_null tc)) | Some v \<Rightarrow> Some v) tc"
  let ?d1 = "raw(''TotalCharges'' \<mapsto> NumCol ?imp)"
  let ?d2 = "\<lambda>c. if c \<in> set categorical_cols
      then map_option LabelEncoder_fit_transform (?d1 c) else ?d1 c"
  let ?d3 = "setcols ?d2 numeric_cols
      (map (\<lambda>c. StandardScaler_column (cells ?d2 c)) numeric_cols)"
  have s1: "impute_cell raw = Inr ?d1" by (rule impute_cell_numeric[of raw tc, OF tc tcn])
  have p1: "\<forall>c\<in>set categorical_cols. ?d1 c \<noteq> None" using cat by simp
  have s2: "encode_cell ?d1 = Inr ?d2"
    unfolding encode_cell_def by (rule encode_loop_present[OF col_names(1) p1])
  from tcn have tcne: "tc \<noteq> []" by auto
  have p2: "\<forall>c\<in>set numeric_cols. \<exists>xs. ?d2 c = Some (NumCol xs) \<and> xs \<noteq> []"
  proof
    fix c assume c: "c \<in> set numeric_cols"
    with col_names(8) have nc: "c \<notin> set categorical_cols" by auto
    show "\<exists>xs. ?d2 c = Some (NumCol xs) \<and> xs \<noteq> []"
    proof (cases "c = ''TotalCharges''")
      case True
      with nc tcne show ?thesis by simp
    next
      case False
      with nc num c show ?thesis by simp
    qed
  qed
  have s3: "scale_cell ?d2 = Inr ?d3" by (rule scale_cell_numeric[OF p2])
  have d3: "?d3 c = (if c \<in> set numeric_cols
      then Some (NumCol (StandardScaler_column (cells ?d2 c))) else ?d2 c)" for c
    by (rule setcols_map[OF distinct_numeric_cols])
  have d3id: "?d3 ''CustomerID'' \<noteq> None"
    unfolding d3 using col_names(3,4) id by simp
  have d3ch: "?d3 ''Churn'' = Some (NumCol ys)"
    unfolding d3 using col_names(5,6) churn enc by simp
  from enc have "ys = map (\<lambda>k. Some (real k)) (snd (unique_inverse col))"
    by (simp add: LabelEncoder_fit_transform_def)
  then have nonan: "None \<notin> set ys" by auto
  from split_cell_rates[of rng ys ?d3, OF rng nonan d3id d3ch len two few]
  obtain vars train test where v: "split_cell rng ?d3 = Inr vars"
    "nb_X vars = ?d3 |` (- {''CustomerID'', ''Churn''})" "nb_y vars = NumCol ys"
    "nb_X_train vars = iloc (nb_X vars) train" "nb_X_test vars = iloc (nb_X vars) test"
    "nb_y_train vars = NumCol (map (\<lambda>i. ys ! i) train)"
    "nb_y_test vars = NumCol (map (\<lambda>i. ys ! i) test)"
    "mset train + mset test = mset [0..<n_records]"
    "length train = 4000" "length test = 1000"
    "\<forall>v. \<bar>class_rate v (map (\<lambda>i. ys ! i) train) - class_rate v ys\<bar> \<le> 2 / 100 \<and>
           \<bar>class_rate v (map (\<lambda>i. ys ! i) test) - class_rate v ys\<bar> \<le> 2 / 100"
    by (elim exE conjE) (rule that, assumption+)
  have pp: "preprocess rng raw = Inr vars"
    unfolding preprocess_def by (simp add: s1 s2 s3 v(1))
  show ?thesis
    apply (rule exI[of _ ?d1], rule exI[of _ ?d2], rule exI[of _ ?d3], rule exI[of _ vars],
        rule exI[of _ train], rule exI[of _ test])
    apply (intro conjI)
                     apply (rule s1)
                  apply (rule s2)
                 apply (rule s3)
                apply (rule v(1))
               apply (rule pp)
              apply simp
             apply (rule p2)
              apply (rule d3ch)
             apply (rule v(3))
            apply (rule v(2))
           apply (rule v(4))
          apply (rule v(5))
         apply (rule v(6))
        apply (rule v(7))
       apply (rule v(8))
      apply (rule v(9))
     apply (rule v(10))
    apply (rule v(11))
    done
qed

lemma some_row_kept:
  assumes "valid_draws d"
  shows "\<exists>i<n_records. i \<notin> set (missing_idx d)"
proof (rule ccontr)
  assume "\<not> (\<exists>i<n_records. i \<notin> set (missing_idx d))"
  then have "{0..<n_records} \<subseteq> set (missing_idx d)" by auto
  then have "card {0..<n_records} \<le> card (set (missing_idx d))"
    by (intro card_mono) simp_all
  also have "\<dots> \<le> length (missing_idx d)" by (rule card_length)
  finally show False using valid_idx(1)[OF assms] by (simp add: n_records_def)
qed

lemma generated_schema:
  assumes "valid_draws d"
  shows "\<exists>raw tc. generate d = Inr raw \<and>
     raw ''TotalCharges'' = Some (NumCol tc) \<and> (\<exists>i<length tc. tc ! i \<noteq> None) \<and>
     (\<forall>c\<in>set categorical_cols. raw c \<noteq> None) \<and>
     (\<forall>c\<in>set numeric_cols. \<exists>xs. raw c = Some (NumCol xs) \<and> xs \<noteq> []) \<and>
     raw ''CustomerID'' \<noteq> None \<and>
     raw ''Churn'' = Some (StrCol (Churn_draw d)) \<and>
     raw ''Age'' = Some (of_ints (Age_draw d))"
proof -
  let ?tc = "loc_assign (missing_idx d) (replicate 50 None) (tc0 d)"
  note len = valid_lengths[OF assms]
  from some_row_kept[OF assms] obtain i where i: "i < n_records" "i \<notin> set (missing_idx d)"
    by blast
  then have "?tc ! i \<noteq> None" using tc_final_nth[OF assms i(1)] by simp
  then have nn: "\<exists>i<length ?tc. ?tc ! i \<noteq> None" using i(1) len by auto
  have pos: "0 < n_records" by (simp add: n_records_def)
  have ne: "tc0 d \<noteq> []" "mc0 d \<noteq> []" "tn0 d \<noteq> []" "Age_draw d \<noteq> []"
    using len pos assms by (auto simp: valid_draws_def)
  have ne2: "series_div (tc0 d) (np_where (series_eq (tn0 d) 0) 1 (tn0 d)) \<noteq> []"
    "series_mul (mc0 d) (tn0 d) \<noteq> []"
    using ne by (simp_all add: series_div_def series_mul_def np_where_def series_eq_def)
  have ne3: "?tc \<noteq> []"
    "loc_assign (outlier_idx d)
       (map (\<lambda>x. fmul x (Some (3 / 2))) (loc_get (outlier_idx d) (mc0 d))) (mc0 d) \<noteq> []"
    using ne by (metis length_loc_assign length_0_conv)+
  let ?raw = "(initial_table d)
      (''average_monthly_charges'' \<mapsto> NumCol (series_div (tc0 d) (np_where (series_eq (tn0 d) 0) 1 (tn0 d))),
       ''customer_lifetime_value'' \<mapsto> NumCol (series_mul (mc0 d) (tn0 d)),
       ''TotalCharges'' \<mapsto> NumCol ?tc,
       ''MonthlyCharges'' \<mapsto> NumCol (loc_assign (outlier_idx d)
            (map (\<lambda>x. fmul x (Some (3 / 2))) (loc_get (outlier_idx d) (mc0 d))) (mc0 d)))"
  have g: "generate d = Inr ?raw" by (rule generate_eq[OF assms])
  have r1: "?raw ''TotalCharges'' = Some (NumCol ?tc)" by simp
  have r2: "\<forall>c\<in>set categorical_cols. ?raw c \<noteq> None"
    by (simp add: categorical_cols_def initial_table_def)
  have r3: "\<forall>c\<in>set numeric_cols. \<exists>xs. ?raw c = Some (NumCol xs) \<and> xs \<noteq> []"
    by (simp add: numeric_cols_def initial_table_def of_ints_def of_floats_def ne ne2 ne3
        tn0_def[symmetric])
  have r4: "?raw ''CustomerID'' \<noteq> None" "?raw ''Churn'' = Some (StrCol (Churn_draw d))"
    "?raw ''Age'' = Some (of_ints (Age_draw d))"
    by (simp_all add: initial_table_def)
  from g r1 nn r2 r3 r4 show ?thesis by blast
qed

lemma remdups_replicate_append:
  "0 < n \<Longrightarrow> x \<notin> set ys \<Longrightarrow> remdups (replicate n x @ ys) = x # remdups ys"
proof (induction n)
  case 0
  then show ?case by simp
next
  case (Suc n)
  then show ?case by (cases "n = 0") auto
qed

lemma sort_yes_no: "sort [''Yes'', ''No''] = [''No'', ''Yes'']"
  by code_simp

lemma example_encoding:
  "LabelEncoder_fit_transform (StrCol (Churn_draw example_draws)) = NumCol example_labels"
proof -
  have c: "Churn_draw example_draws = replicate 1000 ''Yes'' @ replicate 4000 ''No''"
    by (simp add: example_draws_def)
  have "remdups (replicate 4000 ''No'' @ []) = [''No'']"
    by (subst remdups_replicate_append) simp_all
  then have r: "remdups (replicate 1000 ''Yes'' @ replicate 4000 ''No'') = [''Yes'', ''No'']"
    by (subst remdups_replicate_append) simp_all
  show ?thesis
    unfolding LabelEncoder_fit_transform_def unique_inverse_def c
    by (simp add: r sort_yes_no example_labels_def del: sort_key_simps)
qed

text \<open>
  Claim C4. Take a table of 5000 rows with the columns the preprocessor asks for, whose
  encoded label column has at least two rows of every class and at most 1000 classes
  (scikit-learn raises ValueError otherwise). For every outcome of the random source the
  preprocessor returns a split on the encoded label: a train subset of 4000 rows and a
  test subset of 1000 rows that together are all rows, each once, and the rate of every
  label value, so also the churn rate, in the train subset and in the test subset is
  within 2 percentage points of its rate in the whole table.
\<close>

theorem stratified_split_preserves_rate:
  assumes "valid_rng rng"
    and "raw ''TotalCharges'' = Some (NumCol tc)" and "\<exists>i<length tc. tc ! i \<noteq> None"
    and "\<forall>c\<in>set categorical_cols. raw c \<noteq> None"
    and "\<forall>c\<in>set numeric_cols. \<exists>xs. raw c = Some (NumCol xs) \<and> xs \<noteq> []"
    and "raw ''CustomerID'' \<noteq> None"
    and "raw ''Churn'' = Some col" and "LabelEncoder_fit_transform col = NumCol ys"
    and "length ys = n_records"
    and "\<forall>v\<in>set ys. 2 \<le> count_list ys v"
    and "card (set ys) \<le> 1000"
  shows "\<exists>vars train test. preprocess rng raw = Inr vars \<and> nb_y vars = NumCol ys \<and>
      nb_X_train vars = iloc (nb_X vars) train \<and> nb_X_test vars = iloc (nb_X vars) test \<and>
      nb_y_train vars = NumCol (map (\<lambda>i. ys ! i) train) \<and>
      nb_y_test vars = NumCol (map (\<lambda>i. ys ! i) test) \<and>
      mset train + mset test = mset [0..<n_records] \<and>
      length train = 4000 \<and> length test = 1000 \<and>
      (\<forall>v. \<bar>class_rate v (map (\<lambda>i. ys ! i) train) - class_rate v ys\<bar> \<le> 2 / 100 \<and>
           \<bar>class_rate v (map (\<lambda>i. ys ! i) test) - class_rate v ys\<bar> \<le> 2 / 100)"
proof -
  from preprocess_ok[OF assms] obtain vars train test where
    "preprocess rng raw = Inr vars" "nb_y vars = NumCol ys"
    "nb_X_train vars = iloc (nb_X vars) train" "nb_X_test vars = iloc (nb_X vars) test"
    "nb_y_train vars = NumCol (map (\<lambda>i. ys ! i) train)"
    "nb_y_test vars = NumCol (map (\<lambda>i. ys ! i) test)"
    "mset train + mset test = mset [0..<n_records]"
    "length train = 4000" "length test = 1000"
    "\<forall>v. \<bar>class_rate v (map (\<lambda>i. ys ! i) train) - class_rate v ys\<bar> \<le> 2 / 100 \<and>
           \<bar>class_rate v (map (\<lambda>i. ys ! i) test) - class_rate v ys\<bar> \<le> 2 / 100"
    by (elim exE conjE) (rule that, assumption+)
  then show ?thesis by blast
qed

text \<open>
  The table generated from the example outcome: 1000 churners among 5000 customers,
  label Yes encoded as 1.
\<close>

theorem stratified_split_preserves_rate_witness:
  "\<exists>raw vars train test. generate example_draws = Inr raw \<and>
      preprocess id_rng raw = Inr vars \<and> nb_y vars = NumCol example_labels \<and>
      nb_y_train vars = NumCol (map (\<lambda>i. example_labels ! i) train) \<and>
      nb_y_test vars = NumCol (map (\<lambda>i. example_labels ! i) test) \<and>
      length train = 4000 \<and> length test = 1000 \<and>
      class_rate (Some 1) example_labels = 1 / 5 \<and>
      \<bar>class_rate (Some 1) (map (\<lambda>i. example_labels ! i) train) - 1 / 5\<bar> \<le> 2 / 100 \<and>
      \<bar>class_rate (Some 1) (map (\<lambda>i. example_labels ! i) test) - 1 / 5\<bar> \<le> 2 / 100"
proof -
  from generated_schema[OF valid_example] obtain raw tc where
    g: "generate example_draws = Inr raw"
    and s: "raw ''TotalCharges'' = Some (NumCol tc)" "\<exists>i<length tc. tc ! i \<noteq> None"
      "\<forall>c\<in>set categorical_cols. raw c \<noteq> None"
      "\<forall>c\<in>set numeric_cols. \<exists>xs. raw c = Some (NumCol xs) \<and> xs \<noteq> []"
      "raw ''CustomerID'' \<noteq> None"
      "raw ''Churn'' = Some (StrCol (Churn_draw example_draws))"
    by blast
  have two: "\<forall>v\<in>set example_labels. 2 \<le> count_list example_labels v"
    using example_labels_facts by auto
  have few: "card (set example_labels) \<le> 1000"
    by (simp add: example_labels_facts(2))
  have r: "class_rate (Some 1) example_labels = 1 / 5"
    by (simp add: class_rate_def example_labels_facts n_records_def)
  from stratified_split_preserves_rate[OF valid_id_rng s example_encoding
      example_labels_facts(1) two few]
  obtain vars train test where
    "preprocess id_rng raw = Inr vars" "nb_y vars = NumCol example_labels"
    "nb_y_train vars = NumCol (map (\<lambda>i. example_labels ! i) train)"
    "nb_y_test vars = NumCol (map (\<lambda>i. example_labels ! i) test)"
    "length train = 4000" "length test = 1000"
    "\<forall>v. \<bar>class_rate v (map (\<lambda>i. example_labels ! i) train) - class_rate v example_labels\<bar> \<le> 2 / 100 \<and>
         \<bar>class_rate v (map (\<lambda>i. example_labels ! i) test) - class_rate v example_labels\<bar> \<le> 2 / 100"
    by (elim exE conjE) (rule that, assumption+)
  with r g show ?thesis by metis
qed






lemma impute_small:
  "impute_cell [''TotalCharges'' \<mapsto> NumCol [Some 1, None, Some 3]] =
   Inr [''TotalCharges'' \<mapsto> NumCol [Some 1, Some 2, Some 3]]"
  by (simp add: impute_cell_def getcol_def SimpleImputer_fit_transform_def mean_def)

text \<open>
  The table generated from the example outcome: row 0 has lost its total charge and gets
  the mean, row 50 keeps its total charge 600.
\<close>

theorem imputation_fills_mean_witness:
  "\<exists>raw tc data1 ys. generate example_draws = Inr raw \<and>
      raw ''TotalCharges'' = Some (NumCol tc) \<and> impute_cell raw = Inr data1 \<and>
      data1 ''TotalCharges'' = Some (NumCol ys) \<and> length ys = 5000 \<and>
      tc ! 0 = None \<and> ys ! 0 = Some (mean (non_null tc)) \<and>
      tc ! 50 = Some 600 \<and> ys ! 50 = Some 600"
proof -
  let ?tc = "loc_assign (missing_idx example_draws) (replicate 50 None) (tc0 example_draws)"
  from generated_schema[OF valid_example] obtain raw tc where
    g: "generate example_draws = Inr raw"
    and s: "raw ''TotalCharges'' = Some (NumCol tc)" "\<exists>i<length tc. tc ! i \<noteq> None"
    by blast
  have "column_of (generate example_draws) ''TotalCharges'' = ?tc"
    unfolding generate_eq[OF valid_example] column_of_def cells_def by simp
  with g s(1) have tc: "tc = ?tc" by (simp add: column_of_def cells_def)
  have n: "0 < n_records" "50 < n_records" by (simp_all add: n_records_def)
  have l: "length tc = 5000"
    unfolding tc using valid_lengths(1)[OF valid_example] by (simp add: n_records_def)
  have t0: "tc ! 0 = None"
    unfolding tc using tc_final_nth[OF valid_example n(1)] by (simp add: example_draws_def)
  have t50: "tc ! 50 = Some 600"
    unfolding tc using tc_final_nth[OF valid_example n(2)]
    by (simp add: example_draws_def nth_append)
  from imputation_fills_mean[of raw tc, OF s] obtain data1 ys where
    i: "impute_cell raw = Inr data1" "data1 ''TotalCharges'' = Some (NumCol ys)"
      "length ys = length tc"
      "\<forall>i<length tc. tc ! i = None \<longrightarrow> ys ! i = Some (mean (non_null tc))"
      "\<forall>i<length tc. tc ! i \<noteq> None \<longrightarrow> ys ! i = tc ! i"
    by (elim exE conjE) (rule that, assumption+)
  from i(4) t0 l have y0: "ys ! 0 = Some (mean (non_null tc))" by simp
  from i(5) t50 l have y50: "ys ! 50 = Some 600" by simp
  from g s(1) i(1,2) i(3)[unfolded l] t0 y0 t50 y50 show ?thesis by blast
qed

end
